theory Spec2Isabelle
  imports Main "HOL-Library.Word"
begin

unbundle bit_operations_syntax

section \<open>Data model of eas\_alsadrv.c\<close>

text \<open>
  The driver keeps its state in file-scope variables. The record below holds the ones the
  event channel, the encoder and the render loop read or write. Bytes are \<open>uint8_t\<close>,
  the two channel indices and the flags are C \<open>int\<close> (modelled as \<open>int\<close>: they stay
  far below the 32-bit range), the \<open>unsigned int\<close> sizes are \<open>nat\<close> with the wrap-around
  at \<open>2 ^ 32\<close> written out where the code computes with them. The array
  \<open>event_buffer[65536]\<close> is a function from index to byte; the code only reads and writes
  it at indices in \<open>0 ..< 65536\<close>.

  What the program does to the outside world is recorded in three logs: the lines written to
  \<open>stderr\<close> and \<open>stdout\<close> (without the newline and without formatted numbers or names),
  and the calls made to the rendering engine, the PCM device and the clock, in order. What the
  outside world answers is an explicit argument of each function. The file is compiled
  without \<open>PRINT_EVENTS\<close>, so the per-event \<open>printf\<close> lines are absent.
\<close>

type_synonym uint8 = "8 word"

record timespec =
  tv_sec :: int
  tv_nsec :: int

text \<open>
  The external calls. \<open>EAS_WriteMIDIStream bytes\<close> carries the bytes handed over,
  \<open>EAS_Render offset count\<close> the byte offset into \<open>midi_buffer\<close> and the number of frames
  asked for, \<open>snd_pcm_writei offset frames written\<close> the byte offset into \<open>midi_buffer\<close>, the
  number of frames offered and the value the device returned, \<open>snd_pcm_pause enable result\<close>
  the argument and the value returned.
\<close>

datatype call =
    EAS_WriteMIDIStream "uint8 list"
  | EAS_Render nat nat
  | snd_pcm_writei nat nat int
  | snd_pcm_pause int int
  | snd_pcm_state
  | snd_pcm_prepare
  | snd_pcm_avail_update
  | clock_gettime

record driver =
  event_buffer :: "int \<Rightarrow> uint8"
  event_read_index :: int
  event_write_index :: int
  midi_event_written :: int
  midi_init_state :: int
  samples_per_call :: nat
  bytes_per_call :: nat
  num_subbuffers :: nat
  subbuf_counter :: nat
  stderr :: "string list"
  stdout :: "string list"
  calls :: "call list"

text \<open>Conversion of a C \<open>int\<close> expression to \<open>unsigned int\<close>.\<close>

definition to_uint :: "int \<Rightarrow> nat" where
  "to_uint x = nat (x mod 2 ^ 32)"

section \<open>The event channel\<close>

subsection \<open>Producer side: \<open>write_event\<close>\<close>

text \<open>
  The copy loop of \<open>write_event\<close>: one byte is stored at \<open>write_index\<close>, which then
  advances by \<open>(write_index + 1) & 0xffff\<close>.
\<close>

fun write_bytes :: "uint8 list \<Rightarrow> (int \<Rightarrow> uint8) \<Rightarrow> int \<Rightarrow> (int \<Rightarrow> uint8) \<times> int" where
  "write_bytes [] buf write_index = (buf, write_index)"
| "write_bytes (b # bs) buf write_index =
     write_bytes bs (buf(write_index := b)) ((write_index + 1) AND 0xffff)"

text \<open>
  \<open>write_event(event, length)\<close>: the pointer and its length are the byte list \<open>event\<close>.
  On overflow the function prints one line to \<open>stderr\<close> and returns; otherwise it copies
  the bytes, publishes the new \<open>event_write_index\<close> and raises \<open>midi_event_written\<close>.
\<close>

definition free_space :: "int \<Rightarrow> int \<Rightarrow> nat" where
  "free_space read_index write_index =
     (if write_index \<ge> read_index
      then to_uint (65535 - (write_index - read_index))
      else to_uint ((read_index - write_index) - 1))"

definition write_event :: "uint8 list \<Rightarrow> driver \<Rightarrow> driver" where
  "write_event event s =
     (let read_index = event_read_index s;
          write_index = event_write_index s
      in if length event > free_space read_index write_index
         then s\<lparr>stderr := stderr s @ [''Event buffer overflow'']\<rparr>
         else (case write_bytes event (event_buffer s) write_index of
                 (buf, write_index') \<Rightarrow>
                   s\<lparr>event_buffer := buf, event_write_index := write_index',
                     midi_event_written := 1\<rparr>))"

subsection \<open>Consumer side: \<open>render_subbuffer\<close>\<close>

text \<open>
  \<open>&(event_buffer[i])\<close> with a count \<open>n\<close>: the \<open>n\<close> bytes stored from index \<open>i\<close> on.
\<close>

definition span :: "(int \<Rightarrow> uint8) \<Rightarrow> int \<Rightarrow> int \<Rightarrow> uint8 list" where
  "span buf i n = map (\<lambda>k. buf (i + int k)) [0 ..< nat n]"

text \<open>
  The first half of \<open>render_subbuffer\<close> hands the bytes between the two indices to the
  engine, in one call when the region is contiguous and in two when it wraps, and then sets
  \<open>event_read_index\<close> to the value of \<open>event_write_index\<close> that was read at entry.
\<close>

definition read_events :: "driver \<Rightarrow> driver" where
  "read_events s =
     (let read_index = event_read_index s;
          write_index = event_write_index s
      in if read_index \<noteq> write_index
         then (if read_index < write_index
               then s\<lparr>calls := calls s @
                        [EAS_WriteMIDIStream (span (event_buffer s) read_index (write_index - read_index))],
                      event_read_index := write_index\<rparr>
               else s\<lparr>calls := calls s @
                        [EAS_WriteMIDIStream (span (event_buffer s) read_index (65536 - read_index)),
                         EAS_WriteMIDIStream (span (event_buffer s) 0 write_index)],
                      event_read_index := write_index\<rparr>)
         else s)"

text \<open>
  The second half asks the engine for \<open>samples_per_call\<close> frames at offset
  \<open>num * bytes_per_call\<close> of \<open>midi_buffer\<close>. The engine's answer is the pair
  \<open>(res, num_generated)\<close>; \<open>EAS_SUCCESS\<close> is 0. The result is 0, -1 or -2 as in the code.
\<close>

definition render_subbuffer :: "nat \<Rightarrow> int \<times> int \<Rightarrow> driver \<Rightarrow> int \<times> driver" where
  "render_subbuffer num reply s =
     (let s1 = read_events s;
          s2 = s1\<lparr>calls := calls s1 @
                 [EAS_Render ((num * bytes_per_call s1) mod 2 ^ 32) (samples_per_call s1)]\<rparr>
      in if fst reply \<noteq> 0 then (-1, s2)
         else if snd reply \<noteq> int (samples_per_call s2) then (-2, s2)
         else (0, s2))"

subsection \<open>Abstraction of the channel\<close>

text \<open>
  Both indices stay inside the array. The occupied region runs from \<open>event_read_index\<close>
  up to \<open>event_write_index\<close>, modulo the capacity; \<open>pending\<close> lists its bytes in order.
\<close>

definition indices_ok :: "driver \<Rightarrow> bool" where
  "indices_ok s \<longleftrightarrow>
     0 \<le> event_read_index s \<and> event_read_index s < 65536 \<and>
     0 \<le> event_write_index s \<and> event_write_index s < 65536"

definition occupied :: "driver \<Rightarrow> nat" where
  "occupied s = nat ((event_write_index s - event_read_index s) mod 65536)"

definition pending :: "driver \<Rightarrow> uint8 list" where
  "pending s =
     map (\<lambda>k. event_buffer s ((event_read_index s + int k) mod 65536)) [0 ..< occupied s]"

section \<open>The event encoder\<close>

text \<open>
  An ALSA sequencer event as \<open>process_event\<close> reads it: the event type selects the case of
  the \<open>switch\<close>, and the fields are those of the union member the case uses. Note events
  carry \<open>data.note.channel\<close>, \<open>note\<close> and \<open>velocity\<close> (all \<open>unsigned char\<close>);
  controller events carry \<open>data.control.channel\<close> (\<open>unsigned char\<close>), \<open>param\<close>
  (\<open>unsigned int\<close>) and \<open>value\<close> (\<open>signed int\<close>); a system-exclusive event carries the
  \<open>len\<close> bytes at \<open>data.ext.ptr\<close>. The two subscription events carry the client name when
  \<open>snd_seq_get_any_client_info\<close> finds one. Any other type code is \<open>SND_SEQ_EVENT_other\<close>.
\<close>

datatype snd_seq_event =
    SND_SEQ_EVENT_NOTEON uint8 uint8 uint8
  | SND_SEQ_EVENT_NOTEOFF uint8 uint8 uint8
  | SND_SEQ_EVENT_KEYPRESS uint8 uint8 uint8
  | SND_SEQ_EVENT_CONTROLLER uint8 "32 word" "32 word"
  | SND_SEQ_EVENT_PGMCHANGE uint8 "32 word" "32 word"
  | SND_SEQ_EVENT_CHANPRESS uint8 "32 word" "32 word"
  | SND_SEQ_EVENT_PITCHBEND uint8 "32 word" "32 word"
  | SND_SEQ_EVENT_CONTROL14 uint8 "32 word" "32 word"
  | SND_SEQ_EVENT_NONREGPARAM uint8 "32 word" "32 word"
  | SND_SEQ_EVENT_REGPARAM uint8 "32 word" "32 word"
  | SND_SEQ_EVENT_SYSEX "uint8 list"
  | SND_SEQ_EVENT_QFRAME
  | SND_SEQ_EVENT_SONGPOS
  | SND_SEQ_EVENT_SONGSEL
  | SND_SEQ_EVENT_TUNE_REQUEST
  | SND_SEQ_EVENT_CLOCK
  | SND_SEQ_EVENT_TICK
  | SND_SEQ_EVENT_START
  | SND_SEQ_EVENT_CONTINUE
  | SND_SEQ_EVENT_STOP
  | SND_SEQ_EVENT_SENSING
  | SND_SEQ_EVENT_RESET
  | SND_SEQ_EVENT_PORT_SUBSCRIBED "string option"
  | SND_SEQ_EVENT_PORT_UNSUBSCRIBED "string option"
  | SND_SEQ_EVENT_other uint8

text \<open>
  \<open>subscription_event\<close> only prints: the kind of change when the client is known, and
  ``Client unsubscribed'' when it is not.
\<close>

fun subscription_event :: "bool \<Rightarrow> string option \<Rightarrow> driver \<Rightarrow> driver" where
  "subscription_event subscribed (Some name) s =
     (if subscribed then s\<lparr>stdout := stdout s @ [''Client subscribed: '' @ name]\<rparr>
      else s\<lparr>stdout := stdout s @ [''Client unsubscribed: '' @ name]\<rparr>)"
| "subscription_event subscribed None s = s\<lparr>stdout := stdout s @ [''Client unsubscribed'']\<rparr>"

text \<open>
  Every case of \<open>process_event\<close> that encodes a channel message fills \<open>data\<close> and ends
  with the same block:
  \<^verbatim>\<open>if (data[0] != *running_status) { *running_status = data[0]; write_event(data, length); }
  else { write_event(data + 1, length - 1); }\<close>
  Here \<open>data0\<close> is \<open>data[0]\<close> and \<open>rest\<close> the bytes from \<open>data + 1\<close> on. The running
  status is assigned before \<open>write_event\<close> is called, and \<open>write_event\<close> reports nothing
  back.
\<close>

definition write_running :: "uint8 \<Rightarrow> uint8 list \<Rightarrow> uint8 \<Rightarrow> driver \<Rightarrow> uint8 \<times> driver" where
  "write_running data0 rest running_status s =
     (if data0 \<noteq> running_status
      then (data0, write_event (data0 # rest) s)
      else (running_status, write_event rest s))"

text \<open>
  \<open>process_event(event, &running_status)\<close> returns the new running status and the new
  state. Assigning an \<open>unsigned int\<close> or \<open>int\<close> to a byte of \<open>data\<close> keeps the low eight
  bits (\<open>ucast\<close>); \<open>>>\<close> on the signed \<open>value\<close> is the arithmetic shift, on the unsigned
  \<open>param\<close> the logical one. The test \<open>param >= 0\<close> is always true for an unsigned value.
  The cases under \<open>#if 0\<close> produce nothing.
\<close>

fun process_event :: "snd_seq_event \<Rightarrow> uint8 \<Rightarrow> driver \<Rightarrow> uint8 \<times> driver" where
  "process_event (SND_SEQ_EVENT_NOTEON channel note velocity) running_status s =
     write_running (0x90 OR channel) [note, velocity] running_status s"
| "process_event (SND_SEQ_EVENT_NOTEOFF channel note velocity) running_status s =
     write_running (0x90 OR channel) [note, 0] running_status s"
| "process_event (SND_SEQ_EVENT_KEYPRESS channel note velocity) running_status s =
     (running_status, s)"
| "process_event (SND_SEQ_EVENT_CONTROLLER channel param val) running_status s =
     write_running (0xB0 OR channel) [ucast param, ucast val] running_status s"
| "process_event (SND_SEQ_EVENT_PGMCHANGE channel param val) running_status s =
     write_running (0xC0 OR channel) [ucast val] running_status s"
| "process_event (SND_SEQ_EVENT_CHANPRESS channel param val) running_status s =
     write_running (0xD0 OR channel) [ucast val] running_status s"
| "process_event (SND_SEQ_EVENT_PITCHBEND channel param val) running_status s =
     write_running (0xE0 OR channel)
       [ucast ((val + 0x2000) AND 0x7f), ucast (signed_drop_bit 7 (val + 0x2000) AND 0x7f)]
       running_status s"
| "process_event (SND_SEQ_EVENT_CONTROL14 channel param val) running_status s =
     (if param < 32
      then write_running (0xB0 OR channel)
             [ucast param, ucast (signed_drop_bit 7 val AND 0x7f),
              ucast (param + 32), ucast (val AND 0x7f)]
             running_status s
      else (running_status, s))"
| "process_event (SND_SEQ_EVENT_NONREGPARAM channel param val) running_status s =
     (running_status, s)"
| "process_event (SND_SEQ_EVENT_REGPARAM channel param val) running_status s =
     write_running (0xB0 OR channel)
       [0x65, ucast (drop_bit 7 param AND 0x7f), 0x64, ucast (param AND 0x7f),
        0x06, ucast (signed_drop_bit 7 val AND 0x7f), 0x26, ucast (val AND 0x7f)]
       running_status s"
| "process_event (SND_SEQ_EVENT_SYSEX payload) running_status s =
     (0, write_event payload s)"
| "process_event (SND_SEQ_EVENT_PORT_SUBSCRIBED client) running_status s =
     (running_status, subscription_event True client s)"
| "process_event (SND_SEQ_EVENT_PORT_UNSUBSCRIBED client) running_status s =
     (running_status, subscription_event False client s)"
| "process_event (SND_SEQ_EVENT_other type) running_status s =
     (running_status, s\<lparr>stderr := stderr s @ [''Unhandled event type'']\<rparr>)"
| "process_event event running_status s = (running_status, s)"

text \<open>
  The body of the loop of \<open>midi_thread_proc\<close>, for the events that
  \<open>snd_seq_event_input\<close> delivers one after the other; the thread starts with
  \<open>running_status = 0\<close>.
\<close>

fun process_events :: "snd_seq_event list \<Rightarrow> uint8 \<Rightarrow> driver \<Rightarrow> uint8 \<times> driver" where
  "process_events [] running_status s = (running_status, s)"
| "process_events (event # events) running_status s =
     (case process_event event running_status s of
        (running_status', s') \<Rightarrow> process_events events running_status' s')"

definition midi_thread_proc :: "snd_seq_event list \<Rightarrow> driver \<Rightarrow> uint8 \<times> driver" where
  "midi_thread_proc events s = process_events events 0 s"

text \<open>
  For the statements about channel messages: the pair \<open>(data[0], data + 1)\<close> that a case
  of \<open>process_event\<close> passes to the running-status block, if it has one.
\<close>

fun channel_message :: "snd_seq_event \<Rightarrow> (uint8 \<times> uint8 list) option" where
  "channel_message (SND_SEQ_EVENT_NOTEON channel note velocity) =
     Some (0x90 OR channel, [note, velocity])"
| "channel_message (SND_SEQ_EVENT_NOTEOFF channel note velocity) =
     Some (0x90 OR channel, [note, 0])"
| "channel_message (SND_SEQ_EVENT_CONTROLLER channel param val) =
     Some (0xB0 OR channel, [ucast param, ucast val])"
| "channel_message (SND_SEQ_EVENT_PGMCHANGE channel param val) =
     Some (0xC0 OR channel, [ucast val])"
| "channel_message (SND_SEQ_EVENT_CHANPRESS channel param val) =
     Some (0xD0 OR channel, [ucast val])"
| "channel_message (SND_SEQ_EVENT_PITCHBEND channel param val) =
     Some (0xE0 OR channel,
       [ucast ((val + 0x2000) AND 0x7f), ucast (signed_drop_bit 7 (val + 0x2000) AND 0x7f)])"
| "channel_message (SND_SEQ_EVENT_CONTROL14 channel param val) =
     (if param < 32
      then Some (0xB0 OR channel,
             [ucast param, ucast (signed_drop_bit 7 val AND 0x7f),
              ucast (param + 32), ucast (val AND 0x7f)])
      else None)"
| "channel_message (SND_SEQ_EVENT_REGPARAM channel param val) =
     Some (0xB0 OR channel,
       [0x65, ucast (drop_bit 7 param AND 0x7f), 0x64, ucast (param AND 0x7f),
        0x06, ucast (signed_drop_bit 7 val AND 0x7f), 0x26, ucast (val AND 0x7f)])"
| "channel_message event = None"

text \<open>Note-on and note-off events of one channel, and the two data bytes each one sends.\<close>

fun is_note :: "uint8 \<Rightarrow> snd_seq_event \<Rightarrow> bool" where
  "is_note c (SND_SEQ_EVENT_NOTEON channel note velocity) = (channel = c)"
| "is_note c (SND_SEQ_EVENT_NOTEOFF channel note velocity) = (channel = c)"
| "is_note c event = False"

fun note_data :: "snd_seq_event \<Rightarrow> uint8 list" where
  "note_data (SND_SEQ_EVENT_NOTEON channel note velocity) = [note, velocity]"
| "note_data (SND_SEQ_EVENT_NOTEOFF channel note velocity) = [note, 0]"
| "note_data event = []"

section \<open>The render loop\<close>

subsection \<open>\<open>output_subbuffer\<close>\<close>

text \<open>
  The \<open>while (remaining)\<close> loop of \<open>output_subbuffer\<close>. The list holds the values that
  successive calls of \<open>snd_pcm_writei\<close> return; a negative one ends the function with
  \<open>-1\<close>, any other is subtracted from \<open>remaining\<close> (an unsigned 64-bit
  \<open>snd_pcm_uframes_t\<close>) and moves \<open>buf_ptr\<close> on by \<open>written << 2\<close> bytes. The result
  is \<open>None\<close> when the list ends while frames remain: the device has not answered yet and
  the function has not returned.
\<close>

fun write_frames :: "int list \<Rightarrow> nat \<Rightarrow> nat \<Rightarrow> driver \<Rightarrow> (int \<times> driver) option" where
  "write_frames replies buf_ptr remaining s =
     (if remaining = 0 then Some (0, s)
      else (case replies of
              [] \<Rightarrow> None
            | written # replies' \<Rightarrow>
                (let s' = s\<lparr>calls := calls s @ [snd_pcm_writei buf_ptr remaining written]\<rparr>
                 in if written < 0 then Some (-1, s')
                    else write_frames replies' (buf_ptr + nat (written * 4))
                           (nat ((int remaining - written) mod 2 ^ 64)) s')))"

declare write_frames.simps [simp del]

definition output_subbuffer :: "nat \<Rightarrow> int list \<Rightarrow> driver \<Rightarrow> (int \<times> driver) option" where
  "output_subbuffer num replies s =
     write_frames replies ((num * bytes_per_call s) mod 2 ^ 32) (samples_per_call s) s"

subsection \<open>\<open>main_loop\<close>: the start\<close>

text \<open>
  The locals of \<open>main_loop\<close> that live across iterations. \<open>last_written_time\<close> is not
  initialised when the first pause succeeds; the value it has then is whatever the caller of
  the model passes in.
\<close>

record main_locals =
  is_paused :: int
  last_written_time :: timespec

text \<open>
  The \<open>for (int i = 2; i < num_subbuffers; i++) output_subbuffer(i);\<close> loop, with one
  list of device answers for each subbuffer. The result of \<open>output_subbuffer\<close> is ignored.
\<close>

fun prefill :: "int list list \<Rightarrow> nat \<Rightarrow> driver \<Rightarrow> driver option" where
  "prefill replies i s =
     (if i < num_subbuffers s
      then (case replies of
              [] \<Rightarrow> None
            | r # replies' \<Rightarrow>
                (case output_subbuffer i r s of
                   None \<Rightarrow> None
                 | Some (res, s') \<Rightarrow> prefill replies' (i + 1) s'))
      else Some s)"

declare prefill.simps [simp del]

text \<open>
  \<open>main_loop\<close> up to the \<open>while (1)\<close>: the probe of the raw monotonic clock, the loop
  above, the first \<open>snd_pcm_pause(midi_pcm, 1)\<close> with its answer \<open>pause_result\<close>, and the
  two flags. \<open>now\<close> is what \<open>clock_gettime\<close> stores when the pause fails.
\<close>

definition main_loop_start ::
    "int list list \<Rightarrow> int \<Rightarrow> timespec \<Rightarrow> main_locals \<Rightarrow> driver \<Rightarrow> (main_locals \<times> driver) option" where
  "main_loop_start replies pause_result now l s =
     (case prefill replies 2 (s\<lparr>calls := calls s @ [clock_gettime]\<rparr>) of
        None \<Rightarrow> None
      | Some s1 \<Rightarrow>
          (let s2 = s1\<lparr>calls := calls s1 @ [snd_pcm_pause 1 pause_result]\<rparr>;
               (l3, s3) =
                 (if pause_result = 0
                  then (l\<lparr>is_paused := 1\<rparr>, s2\<lparr>stdout := stdout s2 @ [''PCM playback paused'']\<rparr>)
                  else (l\<lparr>is_paused := 0, last_written_time := now\<rparr>,
                        s2\<lparr>calls := calls s2 @ [clock_gettime]\<rparr>))
           in Some (l3, s3\<lparr>midi_event_written := 0, midi_init_state := 1\<rparr>)))"

subsection \<open>\<open>main_loop\<close>: one iteration of \<open>while (1)\<close>\<close>

text \<open>
  What the outside world answers during one iteration: the time \<open>clock_gettime\<close> stores,
  the result of \<open>snd_pcm_pause\<close>, whether \<open>snd_pcm_state\<close> is \<open>SND_PCM_STATE_XRUN\<close>,
  the result of \<open>snd_pcm_avail_update\<close>, and for each pass of the inner loop the engine's
  answer to \<open>EAS_Render\<close> and the device's answers to \<open>snd_pcm_writei\<close>.
\<close>

record tick_env =
  now :: timespec
  pause_result :: int
  xrun :: bool
  avail :: int
  periods :: "((int \<times> int) \<times> int list) list"

text \<open>
  The inner loop \<open>while (available_frames >= (3 * samples_per_call))\<close>. The product is
  \<open>unsigned int\<close>; \<open>available_frames\<close> is a signed 64-bit \<open>snd_pcm_sframes_t\<close> and the
  comparison is signed. The result is the final \<open>available_frames\<close> and state, or \<open>None\<close>
  when the answers run out before the loop ends.
\<close>

fun output_loop :: "((int \<times> int) \<times> int list) list \<Rightarrow> int \<Rightarrow> driver \<Rightarrow> (int \<times> driver) option" where
  "output_loop answers available_frames s =
     (if available_frames \<ge> int ((3 * samples_per_call s) mod 2 ^ 32)
      then (case answers of
              [] \<Rightarrow> None
            | (render_reply, writei_replies) # answers' \<Rightarrow>
                (case render_subbuffer (subbuf_counter s) render_reply s of
                   (rendered, s1) \<Rightarrow>
                     (let s2 = (if rendered < 0
                                then s1\<lparr>stderr := stderr s1 @ [''Error rendering audio data'']\<rparr>
                                else s1)
                      in case output_subbuffer (subbuf_counter s2) writei_replies s2 of
                           None \<Rightarrow> None
                         | Some (res, s3) \<Rightarrow>
                             if res < 0
                             then Some (0, s3\<lparr>stderr := stderr s3 @ [''Error writing audio data'']\<rparr>)
                             else output_loop answers'
                                    (available_frames - int (samples_per_call s3))
                                    (s3\<lparr>subbuf_counter :=
                                          (if (subbuf_counter s3 + 1) mod 2 ^ 32 = num_subbuffers s3
                                           then 0 else (subbuf_counter s3 + 1) mod 2 ^ 32)\<rparr>))))
      else Some (available_frames, s))"

declare output_loop.simps [simp del]






text \<open>Classifiers and counters on the log of calls.\<close>

fun is_engine_call :: "call \<Rightarrow> bool" where
  "is_engine_call (EAS_WriteMIDIStream bs) = True"
| "is_engine_call (EAS_Render ptr n) = True"
| "is_engine_call c = False"

fun is_pause_request :: "call \<Rightarrow> bool" where
  "is_pause_request (snd_pcm_pause enable res) = (enable = 1)"
| "is_pause_request c = False"

fun frames_written :: "call list \<Rightarrow> int" where
  "frames_written [] = 0"
| "frames_written (snd_pcm_writei ptr n written # cs) =
     (if written < 0 then 0 else written) + frames_written cs"
| "frames_written (c # cs) = frames_written cs"

fun is_writei :: "call \<Rightarrow> bool" where
  "is_writei (snd_pcm_writei ptr n written) = True"
| "is_writei c = False"

text \<open>
  Two kinds of device behaviour during one \<open>output_subbuffer\<close>. \<open>accepts remaining ws\<close>: the
  answers \<open>ws\<close> are frame counts, none larger than what was offered, and together they take
  exactly \<open>remaining\<close> frames. \<open>fails remaining ws\<close>: after some such partial writes, and
  before all frames are taken, the device answers with an error.
\<close>

fun accepts :: "nat \<Rightarrow> int list \<Rightarrow> bool" where
  "accepts remaining [] = (remaining = 0)"
| "accepts remaining (w # ws) =
     (remaining \<noteq> 0 \<and> 0 \<le> w \<and> w \<le> int remaining \<and> accepts (remaining - nat w) ws)"

fun fails :: "nat \<Rightarrow> int list \<Rightarrow> bool" where
  "fails remaining [] = False"
| "fails remaining (w # ws) =
     (remaining \<noteq> 0 \<and> (w < 0 \<or> (w \<le> int remaining \<and> fails (remaining - nat w) ws)))"

text \<open>
  What one call \<open>output_subbuffer(num)\<close> leaves in the log of calls when the device answers
  \<open>replies\<close>: only \<open>snd_pcm_writei\<close> calls; the first one offers the whole period at the
  offset of slot \<open>num\<close>; and when the device takes the period, there is one call for each
  answer and the frames written add up to \<open>samples_per_call\<close>.
\<close>

definition slot_calls :: "driver \<Rightarrow> nat \<Rightarrow> int list \<Rightarrow> call list \<Rightarrow> bool" where
  "slot_calls s num replies cs \<longleftrightarrow>
     list_all is_writei cs \<and>
     take 1 cs = (if samples_per_call s = 0 then []
                  else [snd_pcm_writei ((num * bytes_per_call s) mod 2 ^ 32) (samples_per_call s)
                          (hd replies)]) \<and>
     (accepts (samples_per_call s) replies \<longrightarrow>
        length cs = length replies \<and> frames_written cs = int (samples_per_call s))"

section \<open>Concrete states\<close>

text \<open>
  The state \<open>start_synth\<close> leaves behind: both indices and the subbuffer counter are 0, the
  static arrays are zero, nothing has been printed or called yet. The three sizes come from
  the engine's configuration.
\<close>

definition start_state :: "nat \<Rightarrow> nat \<Rightarrow> nat \<Rightarrow> driver" where
  "start_state spc bpc n =
     \<lparr>event_buffer = (\<lambda>i. 0), event_read_index = 0, event_write_index = 0,
      midi_event_written = 0, midi_init_state = 0,
      samples_per_call = spc, bytes_per_call = bpc, num_subbuffers = n, subbuf_counter = 0,
      stderr = [], stdout = [], calls = []\<rparr>"

text \<open>The integer variables of the driver, in the order of the record.\<close>

definition int_variables :: "driver \<Rightarrow> int list" where
  "int_variables s =
     [event_read_index s, event_write_index s, midi_event_written s, midi_init_state s,
      int (samples_per_call s), int (bytes_per_call s), int (num_subbuffers s),
      int (subbuf_counter s)]"

section \<open>Properties of the event channel\<close>

subsection \<open>Index arithmetic\<close>

lemma and_ffff: "(x::int) AND 0xffff = x mod 65536"
proof -
  have "x AND 0xffff = x AND mask 16" by (simp add: mask_eq_exp_minus_1)
  also have "\<dots> = take_bit 16 x" by (simp only: take_bit_eq_mask)
  also have "\<dots> = x mod 2 ^ 16" by (simp only: take_bit_eq_mod)
  finally show ?thesis by simp
qed

lemma ring_neq:
  fixes a d :: int
  assumes "0 < d" "d < 65536"
  shows "(a + d) mod 65536 \<noteq> a mod 65536"
proof
  assume "(a + d) mod 65536 = a mod 65536"
  then have "65536 dvd (a + d) - a" by (simp add: mod_eq_dvd_iff)
  then have "65536 dvd d" by simp
  then have "65536 \<le> d" using assms(1) by (rule zdvd_imp_le)
  then show False using assms(2) by simp
qed

lemma ring_step: "((w + 1) mod 65536 + int k) mod 65536 = (w + int (Suc k)) mod (65536::int)"
proof -
  have "((w + 1) mod 65536 + int k) mod 65536 = ((w + 1) + int k) mod 65536"
    by (rule mod_add_left_eq)
  also have "(w + 1) + int k = w + int (Suc k)" by simp
  finally show ?thesis .
qed

lemma write_bytes_index:
  "snd (write_bytes bs buf w) = (if bs = [] then w else (w + int (length bs)) mod 65536)"
proof (induction bs arbitrary: buf w)
  case Nil
  then show ?case by simp
next
  case (Cons b bs)
  have "snd (write_bytes (b # bs) buf w) = snd (write_bytes bs (buf(w := b)) ((w + 1) mod 65536))"
    by (simp only: write_bytes.simps and_ffff)
  also have "\<dots> = (if bs = [] then (w + 1) mod 65536 else ((w + 1) mod 65536 + int (length bs)) mod 65536)"
    by (rule Cons.IH)
  also have "\<dots> = (w + int (length (b # bs))) mod 65536"
    by (simp only: ring_step) simp
  finally show ?case by simp
qed

lemma write_bytes_outside:
  "\<forall>k < length bs. i \<noteq> (w + int k) mod 65536 \<Longrightarrow> 0 \<le> w \<Longrightarrow> w < 65536 \<Longrightarrow>
   fst (write_bytes bs buf w) i = buf i"
proof (induction bs arbitrary: buf w)
  case Nil
  then show ?case by simp
next
  case (Cons b bs)
  have w: "i \<noteq> w" using Cons.prems(1)[rule_format, of 0] Cons.prems(2,3) by simp
  have "\<forall>k < length bs. i \<noteq> ((w + 1) mod 65536 + int k) mod 65536"
  proof (intro allI impI)
    fix k assume "k < length bs"
    then have "i \<noteq> (w + int (Suc k)) mod 65536" using Cons.prems(1) by auto
    then show "i \<noteq> ((w + 1) mod 65536 + int k) mod 65536"
      unfolding ring_step .
  qed
  then have "fst (write_bytes bs (buf(w := b)) ((w + 1) mod 65536)) i = (buf(w := b)) i"
    by (intro Cons.IH) auto
  then show ?case using w by (simp only: write_bytes.simps and_ffff) simp
qed

lemma write_bytes_inside:
  "k < length bs \<Longrightarrow> length bs \<le> 65536 \<Longrightarrow> 0 \<le> w \<Longrightarrow> w < 65536 \<Longrightarrow>
   fst (write_bytes bs buf w) ((w + int k) mod 65536) = bs ! k"
proof (induction bs arbitrary: buf w k)
  case Nil
  then show ?case by simp
next
  case (Cons b bs)
  show ?case
  proof (cases k)
    case 0
    have "\<forall>j < length bs. w \<noteq> ((w + 1) mod 65536 + int j) mod 65536"
    proof (intro allI impI)
      fix j assume j: "j < length bs"
      have "(w + int (Suc j)) mod 65536 \<noteq> w mod 65536"
        using j Cons.prems(2) by (intro ring_neq) auto
      then show "w \<noteq> ((w + 1) mod 65536 + int j) mod 65536"
        using Cons.prems(3,4) by (simp only: ring_step) simp
    qed
    then have "fst (write_bytes bs (buf(w := b)) ((w + 1) mod 65536)) w = (buf(w := b)) w"
      by (intro write_bytes_outside) auto
    then show ?thesis using 0 Cons.prems(3,4) by (simp only: write_bytes.simps and_ffff) simp
  next
    case (Suc j)
    have "fst (write_bytes bs (buf(w := b)) ((w + 1) mod 65536)) (((w + 1) mod 65536 + int j) mod 65536) = bs ! j"
      using Cons.prems Suc by (intro Cons.IH) auto
    then show ?thesis unfolding Suc
      by (simp only: write_bytes.simps and_ffff ring_step nth_Cons_Suc)
  qed
qed

lemma mod_wrap_neg:
  fixes x :: int
  assumes "- 65536 \<le> x" "x < 0"
  shows "x mod 65536 = x + 65536"
proof -
  have "x mod 65536 = (x + 65536) mod 65536" by simp
  also have "\<dots> = x + 65536" using assms by (intro mod_pos_pos_trivial) auto
  finally show ?thesis .
qed

lemma mod_wrap_over:
  fixes x :: int
  assumes "65536 \<le> x" "x < 131072"
  shows "x mod 65536 = x - 65536"
proof -
  have "x mod 65536 = (x - 65536) mod 65536" by simp
  also have "\<dots> = x - 65536" using assms by (intro mod_pos_pos_trivial) auto
  finally show ?thesis .
qed

lemma free_space_occupied:
  assumes "indices_ok s"
  shows "free_space (event_read_index s) (event_write_index s) = 65535 - occupied s"
proof (cases "event_write_index s \<ge> event_read_index s")
  case True
  with assms show ?thesis
    by (simp add: free_space_def to_uint_def occupied_def indices_ok_def nat_diff_distrib)
next
  case False
  with assms have "(event_write_index s - event_read_index s) mod 65536
      = event_write_index s - event_read_index s + 65536"
    by (intro mod_wrap_neg) (auto simp: indices_ok_def)
  with False assms show ?thesis
    by (simp add: free_space_def to_uint_def occupied_def indices_ok_def) 
qed

lemma write_index_occupied:
  assumes "indices_ok s"
  shows "event_write_index s = (event_read_index s + int (occupied s)) mod 65536"
proof -
  have "(event_read_index s + (event_write_index s - event_read_index s) mod 65536) mod 65536
        = (event_read_index s + (event_write_index s - event_read_index s)) mod 65536"
    by (rule mod_add_right_eq)
  then show ?thesis using assms by (simp add: occupied_def indices_ok_def)
qed

lemma write_event_overflow:
  assumes "length event > free_space (event_read_index s) (event_write_index s)"
  shows "write_event event s = s\<lparr>stderr := stderr s @ [''Event buffer overflow'']\<rparr>"
  using assms by (simp add: write_event_def)

lemma write_event_fits:
  assumes "length event \<le> free_space (event_read_index s) (event_write_index s)"
  shows "write_event event s =
           s\<lparr>event_buffer := fst (write_bytes event (event_buffer s) (event_write_index s)),
             event_write_index := snd (write_bytes event (event_buffer s) (event_write_index s)),
             midi_event_written := 1\<rparr>"
  using assms by (simp add: write_event_def split: prod.split)

lemma write_event_indices_ok:
  assumes "indices_ok s"
  shows "indices_ok (write_event event s)"
proof (cases "length event \<le> free_space (event_read_index s) (event_write_index s)")
  case True
  show ?thesis using assms
    by (simp add: write_event_fits [OF True] indices_ok_def write_bytes_index)
next
  case False
  then show ?thesis using assms by (simp add: write_event_overflow indices_ok_def)
qed

lemma write_event_occupied:
  assumes ok: "indices_ok s" and fits: "length event + occupied s \<le> 65535"
  shows "occupied (write_event event s) = occupied s + length event"
proof -
  have f: "length event \<le> free_space (event_read_index s) (event_write_index s)"
    using fits by (simp add: free_space_occupied [OF ok])
  have "(event_write_index s + int (length event)) mod 65536 - event_read_index s
        = ((event_read_index s + int (occupied s)) mod 65536 + int (length event)) mod 65536 - event_read_index s"
    using write_index_occupied [OF ok] by simp
  have "((event_write_index s + int (length event)) mod 65536 - event_read_index s) mod 65536
        = (event_write_index s + int (length event) - event_read_index s) mod 65536"
    by (rule mod_diff_left_eq)
  also have "\<dots> = ((event_write_index s - event_read_index s) + int (length event)) mod 65536"
    by (simp add: algebra_simps)
  also have "\<dots> = ((event_write_index s - event_read_index s) mod 65536 + int (length event)) mod 65536"
    by (rule mod_add_left_eq [symmetric])
  also have "\<dots> = int (occupied s) + int (length event)"
    using fits by (simp add: occupied_def)
  finally have *: "((event_write_index s + int (length event)) mod 65536 - event_read_index s) mod 65536
        = int (occupied s + length event)" by simp
  show ?thesis
  proof (cases "event = []")
    case True
    then show ?thesis by (simp add: write_event_fits occupied_def)
  next
    case False
    with * show ?thesis
      by (simp add: write_event_fits [OF f] write_bytes_index occupied_def)
  qed
qed

lemma write_event_pending:
  assumes ok: "indices_ok s" and fits: "length event + occupied s \<le> 65535"
  shows "pending (write_event event s) = pending s @ event"
proof (rule nth_equalityI)
  have f: "length event \<le> free_space (event_read_index s) (event_write_index s)"
    using fits by (simp add: free_space_occupied [OF ok])
  have occ: "occupied (write_event event s) = occupied s + length event"
    by (rule write_event_occupied [OF ok fits])
  show len: "length (pending (write_event event s)) = length (pending s @ event)"
    by (simp add: pending_def occ)
  have w: "0 \<le> event_write_index s" "event_write_index s < 65536"
    using ok by (simp_all add: indices_ok_def)
  have le: "length event \<le> 65536" using fits by simp
  let ?r = "event_read_index s"
  let ?buf' = "fst (write_bytes event (event_buffer s) (event_write_index s))"
  fix i assume "i < length (pending (write_event event s))"
  then have i: "i < occupied s + length event" by (simp add: pending_def occ)
  have lhs: "pending (write_event event s) ! i = ?buf' ((?r + int i) mod 65536)"
    using i by (simp add: pending_def occ) (simp add: write_event_fits [OF f])
  show "pending (write_event event s) ! i = (pending s @ event) ! i"
  proof (cases "i < occupied s")
    case True
    have "\<forall>k < length event. (?r + int i) mod 65536 \<noteq> (event_write_index s + int k) mod 65536"
    proof (intro allI impI)
      fix k assume k: "k < length event"
      have "((?r + int i) + (int (occupied s) - int i + int k)) mod 65536 \<noteq> (?r + int i) mod 65536"
        using True k fits by (intro ring_neq) auto
      moreover have "(event_write_index s + int k) mod 65536 = (?r + int (occupied s) + int k) mod 65536"
        using write_index_occupied [OF ok] by (metis mod_add_left_eq)
      ultimately show "(?r + int i) mod 65536 \<noteq> (event_write_index s + int k) mod 65536"
        by (simp add: algebra_simps)
    qed
    then have "?buf' ((?r + int i) mod 65536) = event_buffer s ((?r + int i) mod 65536)"
      using w by (intro write_bytes_outside) auto
    then show ?thesis using True lhs by (simp add: nth_append pending_def)
  next
    case False
    define k where "k = i - occupied s"
    have k: "k < length event" "i = occupied s + k" using False i by (simp_all add: k_def)
    have "(?r + int i) mod 65536 = (event_write_index s + int k) mod 65536"
      using write_index_occupied [OF ok] k(2) by (metis mod_add_left_eq of_nat_add add.assoc)
    then have "?buf' ((?r + int i) mod 65536) = event ! k"
      using write_bytes_inside [OF k(1) le w] by simp
    then show ?thesis using False lhs k by (simp add: nth_append pending_def)
  qed
qed

lemma write_event_frame:
  "event_read_index (write_event event s) = event_read_index s"
  "calls (write_event event s) = calls s"
  "stdout (write_event event s) = stdout s"
  "samples_per_call (write_event event s) = samples_per_call s"
  "bytes_per_call (write_event event s) = bytes_per_call s"
  "num_subbuffers (write_event event s) = num_subbuffers s"
  "subbuf_counter (write_event event s) = subbuf_counter s"
  "midi_init_state (write_event event s) = midi_init_state s"
  by (simp_all add: write_event_def Let_def split: prod.split)

lemma write_event_stderr_fits:
  "length event \<le> free_space (event_read_index s) (event_write_index s) \<Longrightarrow>
   stderr (write_event event s) = stderr s"
  by (simp add: write_event_fits)

lemma pending_length: "length (pending s) = occupied s"
  by (simp add: pending_def)

lemma fold_write_event:
  "indices_ok s \<Longrightarrow> length (concat chunks) + occupied s \<le> 65535 \<Longrightarrow>
   indices_ok (fold write_event chunks s) \<and>
   pending (fold write_event chunks s) = pending s @ concat chunks \<and>
   event_read_index (fold write_event chunks s) = event_read_index s \<and>
   stderr (fold write_event chunks s) = stderr s \<and>
   calls (fold write_event chunks s) = calls s"
proof (induction chunks arbitrary: s)
  case Nil
  then show ?case by simp
next
  case (Cons c cs)
  have fits: "length c + occupied s \<le> 65535" using Cons.prems(2) by simp
  have ok': "indices_ok (write_event c s)" by (rule write_event_indices_ok [OF Cons.prems(1)])
  have occ: "occupied (write_event c s) = occupied s + length c"
    by (rule write_event_occupied [OF Cons.prems(1) fits])
  have "length (concat cs) + occupied (write_event c s) \<le> 65535"
    using Cons.prems(2) occ by simp
  from Cons.IH [OF ok' this]
  show ?case
    using write_event_pending [OF Cons.prems(1) fits] fits
    by (simp add: write_event_frame write_event_stderr_fits free_space_occupied [OF Cons.prems(1)])
qed

lemma span_nth: "k < nat n \<Longrightarrow> span buf i n ! k = buf (i + int k)"
  by (simp add: span_def)

lemma span_length: "length (span buf i n) = nat n"
  by (simp add: span_def)

lemma read_events_contiguous:
  assumes ok: "indices_ok s" and lt: "event_read_index s < event_write_index s"
  shows "span (event_buffer s) (event_read_index s) (event_write_index s - event_read_index s) = pending s"
proof (rule nth_equalityI)
  have occ: "occupied s = nat (event_write_index s - event_read_index s)"
    using ok lt by (simp add: occupied_def indices_ok_def)
  show "length (span (event_buffer s) (event_read_index s) (event_write_index s - event_read_index s))
        = length (pending s)"
    by (simp add: span_length pending_length occ)
  fix k assume "k < length (span (event_buffer s) (event_read_index s) (event_write_index s - event_read_index s))"
  then have k: "k < nat (event_write_index s - event_read_index s)" by (simp add: span_length)
  then have "(event_read_index s + int k) mod 65536 = event_read_index s + int k"
    using ok by (intro mod_pos_pos_trivial) (auto simp: indices_ok_def)
  then show "span (event_buffer s) (event_read_index s) (event_write_index s - event_read_index s) ! k
             = pending s ! k"
    using k by (simp add: span_nth pending_def occ)
qed

lemma read_events_wrapped:
  assumes ok: "indices_ok s" and gt: "event_write_index s < event_read_index s"
  shows "span (event_buffer s) (event_read_index s) (65536 - event_read_index s) @
         span (event_buffer s) 0 (event_write_index s) = pending s"
proof (rule nth_equalityI)
  let ?r = "event_read_index s" and ?w = "event_write_index s"
  have "(?w - ?r) mod 65536 = ?w - ?r + 65536"
    using ok gt by (intro mod_wrap_neg) (auto simp: indices_ok_def)
  then have occ: "occupied s = nat (65536 - ?r) + nat ?w"
    using ok gt unfolding occupied_def indices_ok_def by linarith
  show len: "length (span (event_buffer s) ?r (65536 - ?r) @ span (event_buffer s) 0 ?w)
        = length (pending s)"
    by (simp add: span_length pending_length occ)
  fix k assume "k < length (span (event_buffer s) ?r (65536 - ?r) @ span (event_buffer s) 0 ?w)"
  then have k: "k < nat (65536 - ?r) + nat ?w" by (simp add: span_length)
  show "(span (event_buffer s) ?r (65536 - ?r) @ span (event_buffer s) 0 ?w) ! k = pending s ! k"
  proof (cases "k < nat (65536 - ?r)")
    case True
    then have "(?r + int k) mod 65536 = ?r + int k"
      using ok by (intro mod_pos_pos_trivial) (auto simp: indices_ok_def)
    then show ?thesis using True k
      by (simp add: nth_append span_length span_nth pending_def occ)
  next
    case False
    define j where "j = k - nat (65536 - ?r)"
    have m: "(?r + int k) mod 65536 = ?r + int k - 65536"
      using ok gt k False by (intro mod_wrap_over) (auto simp: indices_ok_def)
    have jk: "int j = ?r + int k - 65536"
      using False ok unfolding j_def indices_ok_def by linarith
    have jw: "j < nat ?w" using k False unfolding j_def by linarith
    have "(span (event_buffer s) ?r (65536 - ?r) @ span (event_buffer s) 0 ?w) ! k
          = span (event_buffer s) 0 ?w ! j"
      using False by (simp add: nth_append span_length j_def)
    also have "\<dots> = event_buffer s (0 + int j)" using jw by (rule span_nth)
    also have "\<dots> = event_buffer s ((?r + int k) mod 65536)" using jk m by simp
    also have "\<dots> = pending s ! k" using k by (simp add: pending_def occ)
    finally show ?thesis .
  qed
qed

lemma read_events_calls:
  assumes ok: "indices_ok s"
  shows "\<exists>spans. calls (read_events s) = calls s @ map EAS_WriteMIDIStream spans \<and>
           length spans \<le> 2 \<and> concat spans = pending s"
proof -
  consider "event_read_index s = event_write_index s"
    | "event_read_index s < event_write_index s"
    | "event_write_index s < event_read_index s" by linarith
  then show ?thesis
  proof cases
    case 1
    then have "pending s = []" by (simp add: pending_def occupied_def)
    with 1 have "calls (read_events s) = calls s @ map EAS_WriteMIDIStream [] \<and>
        length ([] :: uint8 list list) \<le> 2 \<and> concat [] = pending s"
      by (simp add: read_events_def)
    then show ?thesis by blast
  next
    case 2
    let ?a = "span (event_buffer s) (event_read_index s) (event_write_index s - event_read_index s)"
    have "calls (read_events s) = calls s @ map EAS_WriteMIDIStream [?a] \<and>
        length [?a] \<le> 2 \<and> concat [?a] = pending s"
      using 2 read_events_contiguous [OF ok 2] by (simp add: read_events_def Let_def)
    then show ?thesis by blast
  next
    case 3
    let ?a = "span (event_buffer s) (event_read_index s) (65536 - event_read_index s)"
    let ?b = "span (event_buffer s) 0 (event_write_index s)"
    have "calls (read_events s) = calls s @ map EAS_WriteMIDIStream [?a, ?b] \<and>
        length [?a, ?b] \<le> 2 \<and> concat [?a, ?b] = pending s"
      using 3 read_events_wrapped [OF ok 3] by (simp add: read_events_def Let_def)
    then show ?thesis by blast
  qed
qed

lemma read_events_frame:
  "event_read_index (read_events s) = event_write_index s"
  "event_write_index (read_events s) = event_write_index s"
  "event_buffer (read_events s) = event_buffer s"
  "stderr (read_events s) = stderr s"
  "samples_per_call (read_events s) = samples_per_call s"
  "bytes_per_call (read_events s) = bytes_per_call s"
  "num_subbuffers (read_events s) = num_subbuffers s"
  "subbuf_counter (read_events s) = subbuf_counter s"
  by (simp_all add: read_events_def Let_def)

subsection \<open>Overflow and round trip\<close>

text \<open>
  Claim C1, as the code has it. When the bytes do not fit into the free space (the capacity
  minus one minus the occupied bytes), \<open>write_event\<close> changes nothing but \<open>stderr\<close>,
  which receives the line ``Event buffer overflow'': the buffer contents, both indices, the
  pending bytes and every integer variable of the driver keep their values. No variable
  counts the overflows.
\<close>

theorem write_event_overflow_drops:
  assumes "indices_ok s" and "length event > 65535 - occupied s"
  shows "write_event event s = s\<lparr>stderr := stderr s @ [''Event buffer overflow'']\<rparr> \<and>
         event_buffer (write_event event s) = event_buffer s \<and>
         event_write_index (write_event event s) = event_write_index s \<and>
         event_read_index (write_event event s) = event_read_index s \<and>
         pending (write_event event s) = pending s \<and>
         int_variables (write_event event s) = int_variables s"
proof -
  have "length event > free_space (event_read_index s) (event_write_index s)"
    using assms by (simp add: free_space_occupied)
  then have "write_event event s = s\<lparr>stderr := stderr s @ [''Event buffer overflow'']\<rparr>"
    by (rule write_event_overflow)
  then show ?thesis by (simp add: pending_def occupied_def int_variables_def)
qed

theorem write_event_overflow_drops_witness:
  "indices_ok ((start_state 128 512 8)\<lparr>event_write_index := 65535\<rparr>) \<and>
   length [0x90, 60, 100 :: uint8] > 65535 - occupied ((start_state 128 512 8)\<lparr>event_write_index := 65535\<rparr>) \<and>
   stderr (write_event [0x90, 60, 100] ((start_state 128 512 8)\<lparr>event_write_index := 65535\<rparr>))
     = [''Event buffer overflow''] \<and>
   event_write_index (write_event [0x90, 60, 100] ((start_state 128 512 8)\<lparr>event_write_index := 65535\<rparr>)) = 65535"
proof -
  let ?s = "(start_state 128 512 8)\<lparr>event_write_index := 65535\<rparr>"
  have a: "indices_ok ?s" by (simp add: indices_ok_def start_state_def)
  have b: "length [0x90, 60, 100 :: uint8] > 65535 - occupied ?s"
    by (simp add: occupied_def start_state_def)
  from write_event_overflow_drops [OF a b] a b show ?thesis
    by (simp add: start_state_def)
qed

text \<open>
  Claim C1 as stated asks for an overflow counter to be incremented. With the channel full
  (65535 bytes occupied) a three-byte event overflows, and after the call each integer
  variable has the value it had before.
\<close>

theorem write_event_overflow_counter_counterexample:
  "int_variables (write_event [0x90, 60, 100] ((start_state 128 512 8)\<lparr>event_write_index := 65535\<rparr>))
     = [0, 65535, 0, 0, 128, 512, 8, 0] \<and>
   int_variables ((start_state 128 512 8)\<lparr>event_write_index := 65535\<rparr>)
     = [0, 65535, 0, 0, 128, 512, 8, 0]"
  by (simp add: write_event_def free_space_def to_uint_def int_variables_def start_state_def)

text \<open>
  Claim C2. Start with an empty channel (the consumer has just read everything), at any
  position of the two indices. Enqueue chunks with \<open>write_event\<close>, fewer than 65535 bytes
  in total, and then call \<open>render_subbuffer\<close>. The engine receives at most two spans, whose
  concatenation is the concatenation of the chunks in order; the next call is
  \<open>EAS_Render\<close>; \<open>event_read_index\<close> ends at the value of \<open>event_write_index\<close>; no
  chunk was reported as an overflow.
\<close>

theorem channel_round_trip:
  assumes ok: "indices_ok s"
      and empty: "event_read_index s = event_write_index s"
      and total: "length (concat chunks) < 65535"
  shows "\<exists>spans.
           calls (snd (render_subbuffer num reply (fold write_event chunks s)))
             = calls s @ map EAS_WriteMIDIStream spans @
               [EAS_Render ((num * bytes_per_call s) mod 2 ^ 32) (samples_per_call s)] \<and>
           length spans \<le> 2 \<and>
           concat spans = concat chunks \<and>
           event_read_index (snd (render_subbuffer num reply (fold write_event chunks s)))
             = event_write_index (fold write_event chunks s) \<and>
           stderr (fold write_event chunks s) = stderr s"
proof -
  let ?s1 = "fold write_event chunks s"
  have occ: "occupied s = 0" using empty by (simp add: occupied_def)
  then have fits: "length (concat chunks) + occupied s \<le> 65535" using total by simp
  have p0: "pending s = []" using occ by (simp add: pending_def)
  note f = fold_write_event [OF ok fits]
  from f have ok1: "indices_ok ?s1" by simp
  from read_events_calls [OF ok1] obtain spans where
    sp: "calls (read_events ?s1) = calls ?s1 @ map EAS_WriteMIDIStream spans"
        "length spans \<le> 2" "concat spans = pending ?s1" by blast
  have fr: "bytes_per_call ?s1 = bytes_per_call s" "samples_per_call ?s1 = samples_per_call s"
    by (induction chunks arbitrary: s) (simp_all add: write_event_frame)
  have "calls (snd (render_subbuffer num reply ?s1))
          = calls s @ map EAS_WriteMIDIStream spans @
            [EAS_Render ((num * bytes_per_call s) mod 2 ^ 32) (samples_per_call s)]"
    using sp(1) f fr by (simp add: render_subbuffer_def Let_def read_events_frame)
  moreover have "concat spans = concat chunks" using sp(3) f p0 by simp
  moreover have "event_read_index (snd (render_subbuffer num reply ?s1)) = event_write_index ?s1"
    by (simp add: render_subbuffer_def Let_def read_events_frame)
  ultimately show ?thesis using sp(2) f by blast
qed

text \<open>
  The witness starts two bytes before the end of the array, so the five bytes wrap around.
\<close>

theorem channel_round_trip_witness:
  "indices_ok ((start_state 128 512 8)\<lparr>event_read_index := 65534, event_write_index := 65534\<rparr>) \<and>
   length (concat [[1, 2, 3], [4, 5 :: uint8]]) < 65535 \<and>
   (\<exists>spans.
      calls (snd (render_subbuffer 0 (0, 128) (fold write_event [[1, 2, 3], [4, 5]]
        ((start_state 128 512 8)\<lparr>event_read_index := 65534, event_write_index := 65534\<rparr>))))
        = [] @ map EAS_WriteMIDIStream spans @ [EAS_Render 0 128] \<and>
      length spans \<le> 2 \<and> concat spans = [1, 2, 3, 4, 5]) \<and>
   calls (snd (render_subbuffer 0 (0, 128) (fold write_event [[1, 2, 3], [4, 5]]
     ((start_state 128 512 8)\<lparr>event_read_index := 65534, event_write_index := 65534\<rparr>))))
     = [EAS_WriteMIDIStream [1, 2], EAS_WriteMIDIStream [3, 4, 5], EAS_Render 0 128]"
proof -
  let ?s = "(start_state 128 512 8)\<lparr>event_read_index := 65534, event_write_index := 65534\<rparr>"
  let ?chunks = "[[1, 2, 3], [4, 5 :: uint8]]"
  have a: "indices_ok ?s" by (simp add: indices_ok_def start_state_def)
  have b: "event_read_index ?s = event_write_index ?s" by simp
  have c: "length (concat ?chunks) < 65535" by simp
  from channel_round_trip [OF a b c, of 0 "(0, 128)"]
  obtain spans where
    "calls (snd (render_subbuffer 0 (0, 128) (fold write_event ?chunks ?s)))
       = calls ?s @ map EAS_WriteMIDIStream spans @
         [EAS_Render ((0 * bytes_per_call ?s) mod 2 ^ 32) (samples_per_call ?s)]"
    "length spans \<le> 2" "concat spans = concat ?chunks"
    by blast
  then have d: "\<exists>spans.
      calls (snd (render_subbuffer 0 (0, 128) (fold write_event ?chunks ?s)))
        = [] @ map EAS_WriteMIDIStream spans @ [EAS_Render 0 128] \<and>
      length spans \<le> 2 \<and> concat spans = [1, 2, 3, 4, 5]"
    by (intro exI [of _ spans]) (simp add: start_state_def)
  have e: "calls (snd (render_subbuffer 0 (0, 128) (fold write_event ?chunks ?s)))
     = [EAS_WriteMIDIStream [1, 2], EAS_WriteMIDIStream [3, 4, 5], EAS_Render 0 128]"
    by (simp add: render_subbuffer_def read_events_def write_event_def free_space_def to_uint_def
        start_state_def span_def upt_rec)
  from a c d e show ?thesis by blast
qed

section \<open>Properties of the encoder\<close>

subsection \<open>Auxiliary facts\<close>

lemma process_event_channel_message:
  "channel_message e = Some (st, d) \<Longrightarrow> process_event e rs s = write_running st d rs s"
  by (cases e) (auto split: if_splits)

lemma is_note_channel_message:
  "is_note c e \<Longrightarrow> channel_message e = Some (0x90 OR c, note_data e)"
  by (cases e) auto

lemma note_data_length: "is_note c e \<Longrightarrow> length (note_data e) = 2"
  by (cases e) auto

lemma status_nonzero: "(0x90 :: uint8) OR c \<noteq> 0"
  by (simp add: or_eq_0_iff)

lemma process_events_notes_running:
  "\<forall>e \<in> set es. is_note c e \<Longrightarrow>
   process_events es (0x90 OR c) s = (0x90 OR c, fold write_event (map note_data es) s)"
proof (induction es arbitrary: s)
  case Nil
  then show ?case by simp
next
  case (Cons e es)
  have n: "is_note c e" using Cons.prems by simp
  have "process_event e (0x90 OR c) s = write_running (0x90 OR c) (note_data e) (0x90 OR c) s"
    by (rule process_event_channel_message [OF is_note_channel_message [OF n]])
  then have "process_event e (0x90 OR c) s = (0x90 OR c, write_event (note_data e) s)"
    by (simp add: write_running_def)
  then show ?case using Cons by simp
qed

lemma process_events_notes:
  assumes "\<forall>e \<in> set (e0 # es). is_note c e"
  shows "process_events (e0 # es) 0 s =
           (0x90 OR c, fold write_event (((0x90 OR c) # note_data e0) # map note_data es) s)"
proof -
  have n: "is_note c e0" using assms by simp
  have "process_event e0 0 s = write_running (0x90 OR c) (note_data e0) 0 s"
    by (rule process_event_channel_message [OF is_note_channel_message [OF n]])
  then have "process_event e0 0 s = (0x90 OR c, write_event ((0x90 OR c) # note_data e0) s)"
    using status_nonzero [of c] by (simp add: write_running_def)
  then show ?thesis using assms process_events_notes_running [of es c] by simp
qed

lemma concat_note_data_length:
  "\<forall>e \<in> set es. is_note c e \<Longrightarrow> length (concat (map note_data es)) = 2 * length es"
  by (induction es) (auto simp: note_data_length)

lemma status_above_data: "b < 0x80 \<Longrightarrow> b \<noteq> (0x90 :: uint8) OR c"
proof
  assume b: "b < 0x80" and e: "b = 0x90 OR c"
  have "(0x90 :: uint8) \<le> 0x90 OR c" by (rule le_word_or2)
  with e have "(0x90 :: uint8) \<le> b" by simp
  from this b have "(0x90 :: uint8) < 0x80" by (rule le_less_trans)
  then show False by simp
qed

lemma pending_stderr [simp]: "pending (s\<lparr>stderr := x\<rparr>) = pending s"
  by (simp add: pending_def occupied_def)

lemma occupied_stderr [simp]: "occupied (s\<lparr>stderr := x\<rparr>) = occupied s"
  by (simp add: occupied_def)

lemma indices_ok_stderr [simp]: "indices_ok (s\<lparr>stderr := x\<rparr>) = indices_ok s"
  by (simp add: indices_ok_def)

lemma mask7: "(0x7f :: 'a::len word) = mask 7"
  by (simp add: mask_eq_exp_minus_1)

lemma low7_value: "uint (ucast ((val :: 32 word) AND 0x7f) :: uint8) = sint val mod 128"
proof -
  have "uint (ucast (val AND mask 7) :: uint8) = take_bit 7 (sint val)"
    by (rule bit_eqI) (auto simp: bit_simps)
  then show ?thesis by (simp add: mask7 take_bit_eq_mod)
qed

lemma high7_value:
  "uint (ucast (signed_drop_bit 7 (val :: 32 word) AND 0x7f) :: uint8) = (sint val div 128) mod 128"
proof -
  have "uint (ucast (signed_drop_bit 7 val AND mask 7) :: uint8) = take_bit 7 (drop_bit 7 (sint val))"
    by (rule bit_eqI) (auto simp: bit_simps)
  then show ?thesis by (simp add: mask7 take_bit_eq_mod drop_bit_eq_div)
qed

lemma param_byte: "(param :: 32 word) < 32 \<Longrightarrow> unat (ucast param :: uint8) = unat param"
  by (simp add: unsigned_ucast_eq take_bit_eq_mod word_less_nat_alt)

lemma param32_byte: "(param :: 32 word) < 32 \<Longrightarrow> unat (ucast (param + 32) :: uint8) = unat param + 32"
proof -
  assume p: "param < 32"
  then have u: "unat param < 32" by (simp add: word_less_nat_alt)
  then have "unat param + unat (32 :: 32 word) < 2 ^ LENGTH(32)" by simp
  then have "unat (param + 32) = unat param + unat (32 :: 32 word)" by (simp only: unat_add_lem)
  with u show ?thesis by (simp add: unsigned_ucast_eq take_bit_eq_mod)
qed

lemma note_on_status_differs: "(c :: uint8) < 16 \<Longrightarrow> 0x90 OR c \<noteq> 0x80 OR c"
proof
  assume c: "c < 16" and e: "0x90 OR c = 0x80 OR c"
  have "unat c < 16" using c by (simp add: word_less_nat_alt)
  then have "\<not> bit (unat c) 4" by (simp add: bit_iff_odd)
  then have nb: "\<not> bit c 4" by (simp add: bit_unsigned_iff)
  have b90: "bit (0x90 :: uint8) 4" by simp
  have b80: "\<not> bit (0x80 :: uint8) 4" by simp
  have "bit ((0x90 :: uint8) OR c) 4" by (simp only: bit_or_iff b90 simp_thms)
  moreover have "\<not> bit ((0x80 :: uint8) OR c) 4" by (simp only: bit_or_iff b80 nb simp_thms)
  ultimately show False using e by simp
qed

subsection \<open>Running status, system-exclusive data, controllers, note-off, overflow\<close>

text \<open>
  Claim C3. Let the capture thread, starting with running status 0, process note-on and
  note-off events that are all on channel \<open>c\<close>. The calls of \<open>write_event\<close> it makes are
  exactly these: the first event is handed over with the status byte \<open>0x90 | c\<close> in front
  of its two data bytes, every later event with its two data bytes only. When the whole
  stream fits into the free space of the channel, the bytes appended to the channel are the
  status byte once, followed by the data bytes of all events in order; and when all data bytes
  are below \<open>0x80\<close>, as MIDI data bytes are, the value of the status byte occurs exactly once
  in that stream. Two note-ons on channel 0, notes 60 and 64 with velocities 100 and 90, are
  handed over as \<open>[0x90, 60, 100]\<close> and then \<open>[64, 90]\<close>. (What happens when a chunk does
  not fit is the subject of C10.)
\<close>

theorem running_status_notes:
  assumes all_notes: "\<forall>e \<in> set (e0 # es). is_note c e"
  shows "process_events (e0 # es) 0 s =
           (0x90 OR c, fold write_event (((0x90 OR c) # note_data e0) # map note_data es) s) \<and>
         (indices_ok s \<and> 1 + 2 * length (e0 # es) + occupied s \<le> 65535 \<longrightarrow>
            pending (snd (process_events (e0 # es) 0 s))
              = pending s @ (0x90 OR c) # concat (map note_data (e0 # es))) \<and>
         ((\<forall>e \<in> set (e0 # es). \<forall>b \<in> set (note_data e). b < 0x80) \<longrightarrow>
            count_list ((0x90 OR c) # concat (map note_data (e0 # es))) (0x90 OR c) = 1) \<and>
         process_events [SND_SEQ_EVENT_NOTEON 0 60 100, SND_SEQ_EVENT_NOTEON 0 64 90] 0 s =
           (0x90, write_event [64, 90] (write_event [0x90, 60, 100] s))"
proof (intro conjI impI)
  show pe: "process_events (e0 # es) 0 s =
           (0x90 OR c, fold write_event (((0x90 OR c) # note_data e0) # map note_data es) s)"
    by (rule process_events_notes [OF all_notes])
  show "process_events [SND_SEQ_EVENT_NOTEON 0 60 100, SND_SEQ_EVENT_NOTEON 0 64 90] 0 s =
           (0x90, write_event [64, 90] (write_event [0x90, 60, 100] s))"
    by (simp add: write_running_def)
  {
    assume a: "indices_ok s \<and> 1 + 2 * length (e0 # es) + occupied s \<le> 65535"
    have len: "length (concat (((0x90 OR c) # note_data e0) # map note_data es)) = 1 + 2 * length (e0 # es)"
      using concat_note_data_length [OF all_notes] by simp
    from a len have "length (concat (((0x90 OR c) # note_data e0) # map note_data es)) + occupied s \<le> 65535"
      by simp
    from fold_write_event [OF _ this] a
    have "pending (fold write_event (((0x90 OR c) # note_data e0) # map note_data es) s)
          = pending s @ concat (((0x90 OR c) # note_data e0) # map note_data es)" by blast
    then show "pending (snd (process_events (e0 # es) 0 s))
              = pending s @ (0x90 OR c) # concat (map note_data (e0 # es))"
      unfolding pe by simp
  }
  {
    assume a: "\<forall>e \<in> set (e0 # es). \<forall>b \<in> set (note_data e). b < 0x80"
    have "0x90 OR c \<notin> set (concat (map note_data (e0 # es)))"
    proof
      assume "0x90 OR c \<in> set (concat (map note_data (e0 # es)))"
      then obtain e where "e \<in> set (e0 # es)" "0x90 OR c \<in> set (note_data e)" by auto
      with a have "0x90 OR c < 0x80" by blast
      from status_above_data [OF this, of c] show False by simp
    qed
    then have "count_list (concat (map note_data (e0 # es))) (0x90 OR c) = 0"
      by (simp only: count_list_0_iff not_False_eq_True)
    then show "count_list ((0x90 OR c) # concat (map note_data (e0 # es))) (0x90 OR c) = 1"
      by simp
  }
qed

theorem running_status_notes_witness:
  "is_note 0 (SND_SEQ_EVENT_NOTEON 0 60 100) \<and> is_note 0 (SND_SEQ_EVENT_NOTEON 0 64 90) \<and>
   is_note 0 (SND_SEQ_EVENT_NOTEOFF 0 60 64) \<and>
   process_events [SND_SEQ_EVENT_NOTEON 0 60 100, SND_SEQ_EVENT_NOTEON 0 64 90,
                   SND_SEQ_EVENT_NOTEOFF 0 60 64] 0 (start_state 128 512 8)
     = (0x90, fold write_event [[0x90, 60, 100], [64, 90], [60, 0]] (start_state 128 512 8)) \<and>
   pending (snd (process_events [SND_SEQ_EVENT_NOTEON 0 60 100, SND_SEQ_EVENT_NOTEON 0 64 90,
                   SND_SEQ_EVENT_NOTEOFF 0 60 64] 0 (start_state 128 512 8)))
     = [0x90, 60, 100, 64, 90, 60, 0] \<and>
   count_list [0x90, 60, 100, 64, 90, 60, 0 :: uint8] 0x90 = 1"
proof -
  let ?e0 = "SND_SEQ_EVENT_NOTEON 0 60 100"
  let ?es = "[SND_SEQ_EVENT_NOTEON 0 64 90, SND_SEQ_EVENT_NOTEOFF 0 60 64]"
  let ?s = "start_state 128 512 8"
  have a: "\<forall>e \<in> set (?e0 # ?es). is_note 0 e" by simp
  have ok: "indices_ok ?s" by (simp add: indices_ok_def start_state_def)
  have occ: "occupied ?s = 0" by (simp add: occupied_def start_state_def)
  have p0: "pending ?s = []" by (simp add: pending_def occ)
  have d: "\<forall>e \<in> set (?e0 # ?es). \<forall>b \<in> set (note_data e). b < 0x80" by simp
  have pre: "indices_ok ?s \<and> 1 + 2 * length (?e0 # ?es) + occupied ?s \<le> 65535"
    using ok occ by simp
  note t = running_status_notes [OF a, of ?s]
  have "process_events (?e0 # ?es) 0 ?s
     = (0x90 OR 0, fold write_event (((0x90 OR 0) # note_data ?e0) # map note_data ?es) ?s)"
    by (rule t [THEN conjunct1])
  also have "\<dots> = (0x90, fold write_event [[0x90, 60, 100], [64, 90], [60, 0]] ?s)"
    by simp
  finally have 1: "process_events (?e0 # ?es) 0 ?s
     = (0x90, fold write_event [[0x90, 60, 100], [64, 90], [60, 0]] ?s)" .
  have "pending (snd (process_events (?e0 # ?es) 0 ?s))
      = pending ?s @ (0x90 OR 0) # concat (map note_data (?e0 # ?es))"
    by (rule t [THEN conjunct2, THEN conjunct1, THEN mp, OF pre])
  also have "\<dots> = [0x90, 60, 100, 64, 90, 60, 0]"
    by (simp add: p0)
  finally have 2: "pending (snd (process_events (?e0 # ?es) 0 ?s)) = [0x90, 60, 100, 64, 90, 60, 0]" .
  have "count_list ((0x90 OR 0) # concat (map note_data (?e0 # ?es))) (0x90 OR 0 :: uint8) = 1"
    by (rule t [THEN conjunct2, THEN conjunct2, THEN conjunct1, THEN mp, OF d])
  then have 3: "count_list [0x90, 60, 100, 64, 90, 60, 0 :: uint8] 0x90 = 1" by simp
  have 0: "is_note 0 ?e0 \<and> is_note 0 (SND_SEQ_EVENT_NOTEON 0 64 90) \<and>
           is_note 0 (SND_SEQ_EVENT_NOTEOFF 0 60 64)" by simp
  from 0 1 2 3 show ?thesis by blast
qed

text \<open>
  Claim C6. A system-exclusive event hands its payload to \<open>write_event\<close> unchanged and sets
  the running status to 0, whatever it was; when the payload fits, it is appended to the
  channel as it is. A note-on, a system-exclusive block and the same note-on again, processed
  from running status 0, are handed over as the full three-byte note-on, the payload, and the
  full three-byte note-on again.
\<close>

theorem sysex_resets_running_status:
  "process_event (SND_SEQ_EVENT_SYSEX payload) rs s = (0, write_event payload s) \<and>
   (indices_ok s \<and> length payload + occupied s \<le> 65535 \<longrightarrow>
      pending (snd (process_event (SND_SEQ_EVENT_SYSEX payload) rs s)) = pending s @ payload) \<and>
   process_events [SND_SEQ_EVENT_NOTEON c n v, SND_SEQ_EVENT_SYSEX payload,
                   SND_SEQ_EVENT_NOTEON c n v] 0 s
     = (0x90 OR c, fold write_event [[0x90 OR c, n, v], payload, [0x90 OR c, n, v]] s) \<and>
   (indices_ok s \<and> 6 + length payload + occupied s \<le> 65535 \<longrightarrow>
      pending (snd (process_events [SND_SEQ_EVENT_NOTEON c n v, SND_SEQ_EVENT_SYSEX payload,
                                    SND_SEQ_EVENT_NOTEON c n v] 0 s))
        = pending s @ [0x90 OR c, n, v] @ payload @ [0x90 OR c, n, v])"
proof (intro conjI impI)
  show "process_event (SND_SEQ_EVENT_SYSEX payload) rs s = (0, write_event payload s)" by simp
  show pe: "process_events [SND_SEQ_EVENT_NOTEON c n v, SND_SEQ_EVENT_SYSEX payload,
                   SND_SEQ_EVENT_NOTEON c n v] 0 s
     = (0x90 OR c, fold write_event [[0x90 OR c, n, v], payload, [0x90 OR c, n, v]] s)"
    using status_nonzero [of c] by (simp add: write_running_def)
  {
    assume a: "indices_ok s \<and> length payload + occupied s \<le> 65535"
    then show "pending (snd (process_event (SND_SEQ_EVENT_SYSEX payload) rs s)) = pending s @ payload"
      by (simp add: write_event_pending)
  }
  {
    assume a: "indices_ok s \<and> 6 + length payload + occupied s \<le> 65535"
    then have "length (concat [[0x90 OR c, n, v], payload, [0x90 OR c, n, v]]) + occupied s \<le> 65535"
      by simp
    from fold_write_event [OF _ this] a
    have "pending (fold write_event [[0x90 OR c, n, v], payload, [0x90 OR c, n, v]] s)
          = pending s @ concat [[0x90 OR c, n, v], payload, [0x90 OR c, n, v]]" by blast
    then show "pending (snd (process_events [SND_SEQ_EVENT_NOTEON c n v, SND_SEQ_EVENT_SYSEX payload,
                                    SND_SEQ_EVENT_NOTEON c n v] 0 s))
        = pending s @ [0x90 OR c, n, v] @ payload @ [0x90 OR c, n, v]"
      unfolding pe by simp
  }
qed

theorem sysex_resets_running_status_witness:
  "indices_ok (start_state 128 512 8) \<and>
   6 + length [0xF0, 0x7E, 0x7F, 0x09, 0x01, 0xF7 :: uint8] + occupied (start_state 128 512 8) \<le> 65535 \<and>
   pending (snd (process_events [SND_SEQ_EVENT_NOTEON 0 60 100,
       SND_SEQ_EVENT_SYSEX [0xF0, 0x7E, 0x7F, 0x09, 0x01, 0xF7],
       SND_SEQ_EVENT_NOTEON 0 60 100] 0 (start_state 128 512 8)))
     = [0x90, 60, 100, 0xF0, 0x7E, 0x7F, 0x09, 0x01, 0xF7, 0x90, 60, 100]"
proof -
  let ?s = "start_state 128 512 8"
  let ?p = "[0xF0, 0x7E, 0x7F, 0x09, 0x01, 0xF7 :: uint8]"
  have ok: "indices_ok ?s" by (simp add: indices_ok_def start_state_def)
  have occ: "occupied ?s = 0" by (simp add: occupied_def start_state_def)
  have p0: "pending ?s = []" by (simp add: pending_def occ)
  have fit: "6 + length ?p + occupied ?s \<le> 65535" by (simp add: occ)
  from sysex_resets_running_status [of ?p 0 ?s 0 60 100] ok fit
  have "pending (snd (process_events [SND_SEQ_EVENT_NOTEON 0 60 100, SND_SEQ_EVENT_SYSEX ?p,
                                    SND_SEQ_EVENT_NOTEON 0 60 100] 0 ?s))
        = pending ?s @ [0x90 OR 0, 60, 100] @ ?p @ [0x90 OR 0, 60, 100]"
    by blast
  then show ?thesis using ok fit by (simp add: p0)
qed

text \<open>
  Claim C7. For a 14-bit controller event with \<open>param < 32\<close>, \<open>process_event\<close> hands over
  the bytes \<open>0xB0 | channel\<close>, \<open>param\<close>, \<open>(value >> 7) & 0x7f\<close>, \<open>param + 32\<close>,
  \<open>value & 0x7f\<close>, five bytes, or four without the first when the running status already is
  \<open>0xB0 | channel\<close>; the running status is \<open>0xB0 | channel\<close> afterwards. The four data
  bytes have the numeric values \<open>param\<close>, \<open>\<lfloor>value / 128\<rfloor> mod 128\<close>, \<open>param + 32\<close> and
  \<open>value mod 128\<close>. Controller 1 with value \<open>0x1234\<close> on channel 0 gives
  \<open>[0xB0, 1, 0x24, 33, 0x34]\<close>. When the bytes fit into the free space of the channel, they
  are the bytes appended to the channel, in this order.
\<close>

theorem control14_bytes:
  assumes "param < 32"
  shows "process_event (SND_SEQ_EVENT_CONTROL14 channel param val) rs s =
           (0xB0 OR channel,
            write_event
              ((if rs \<noteq> 0xB0 OR channel then [0xB0 OR channel] else []) @
               [ucast param, ucast (signed_drop_bit 7 val AND 0x7f),
                ucast (param + 32), ucast (val AND 0x7f)]) s) \<and>
         unat (ucast param :: uint8) = unat param \<and>
         uint (ucast (signed_drop_bit 7 val AND 0x7f) :: uint8) = (sint val div 2 ^ 7) mod 128 \<and>
         unat (ucast (param + 32) :: uint8) = unat param + 32 \<and>
         uint (ucast (val AND 0x7f) :: uint8) = sint val mod 128 \<and>
         length ((if rs \<noteq> 0xB0 OR channel then [0xB0 OR channel] else []) @
               [ucast param :: uint8, ucast (signed_drop_bit 7 val AND 0x7f),
                ucast (param + 32), ucast (val AND 0x7f)])
           = (if rs \<noteq> 0xB0 OR channel then 5 else 4) \<and>
         process_event (SND_SEQ_EVENT_CONTROL14 0 1 0x1234) 0 s =
           (0xB0, write_event [0xB0, 1, 0x24, 33, 0x34] s) \<and>
         (indices_ok s \<and> 5 + occupied s \<le> 65535 \<longrightarrow>
            pending (snd (process_event (SND_SEQ_EVENT_CONTROL14 channel param val) rs s)) =
              pending s @ (if rs \<noteq> 0xB0 OR channel then [0xB0 OR channel] else []) @
                [ucast param, ucast (signed_drop_bit 7 val AND 0x7f),
                 ucast (param + 32), ucast (val AND 0x7f)]) \<and>
         (indices_ok s \<and> 5 + occupied s \<le> 65535 \<longrightarrow>
            pending (snd (process_event (SND_SEQ_EVENT_CONTROL14 0 1 0x1234) 0 s)) =
              pending s @ [0xB0, 1, 0x24, 33, 0x34])"
proof (intro conjI impI)
  show pe: "process_event (SND_SEQ_EVENT_CONTROL14 channel param val) rs s =
           (0xB0 OR channel,
            write_event
              ((if rs \<noteq> 0xB0 OR channel then [0xB0 OR channel] else []) @
               [ucast param, ucast (signed_drop_bit 7 val AND 0x7f),
                ucast (param + 32), ucast (val AND 0x7f)]) s)"
    using assms by (simp add: write_running_def)
  show "unat (ucast param :: uint8) = unat param" by (rule param_byte [OF assms])
  show "unat (ucast (param + 32) :: uint8) = unat param + 32" by (rule param32_byte [OF assms])
  show "uint (ucast (signed_drop_bit 7 val AND 0x7f) :: uint8) = (sint val div 2 ^ 7) mod 128"
    using high7_value [of val] by simp
  show "uint (ucast (val AND 0x7f) :: uint8) = sint val mod 128" by (rule low7_value)
  show "length ((if rs \<noteq> 0xB0 OR channel then [0xB0 OR channel] else []) @
               [ucast param :: uint8, ucast (signed_drop_bit 7 val AND 0x7f),
                ucast (param + 32), ucast (val AND 0x7f)])
           = (if rs \<noteq> 0xB0 OR channel then 5 else 4)" by simp
  show pe1: "process_event (SND_SEQ_EVENT_CONTROL14 0 1 0x1234) 0 s =
           (0xB0, write_event [0xB0, 1, 0x24, 33, 0x34] s)"
    by (simp add: write_running_def)
  {
    assume a: "indices_ok s \<and> 5 + occupied s \<le> 65535"
    let ?bytes = "(if rs \<noteq> 0xB0 OR channel then [0xB0 OR channel] else []) @
               [ucast param, ucast (signed_drop_bit 7 val AND 0x7f),
                ucast (param + 32), ucast (val AND 0x7f)]"
    from a have "length ?bytes + occupied s \<le> 65535" by simp
    from write_event_pending [OF _ this] a
    have "pending (write_event ?bytes s) = pending s @ ?bytes" by blast
    then show "pending (snd (process_event (SND_SEQ_EVENT_CONTROL14 channel param val) rs s)) =
              pending s @ (if rs \<noteq> 0xB0 OR channel then [0xB0 OR channel] else []) @
                [ucast param, ucast (signed_drop_bit 7 val AND 0x7f),
                 ucast (param + 32), ucast (val AND 0x7f)]"
      unfolding pe by simp
    from a have "length [0xB0, 1, 0x24, 33, 0x34 :: uint8] + occupied s \<le> 65535" by simp
    from write_event_pending [OF _ this] a
    have "pending (write_event [0xB0, 1, 0x24, 33, 0x34] s) = pending s @ [0xB0, 1, 0x24, 33, 0x34]"
      by blast
    then show "pending (snd (process_event (SND_SEQ_EVENT_CONTROL14 0 1 0x1234) 0 s)) =
              pending s @ [0xB0, 1, 0x24, 33, 0x34]"
      unfolding pe1 by simp
  }
qed

theorem control14_bytes_witness:
  "(1 :: 32 word) < 32 \<and>
   indices_ok (start_state 128 512 8) \<and> 5 + occupied (start_state 128 512 8) \<le> 65535 \<and>
   process_event (SND_SEQ_EVENT_CONTROL14 0 1 0x1234) 0 (start_state 128 512 8) =
     (0xB0, write_event [0xB0, 1, 0x24, 33, 0x34] (start_state 128 512 8)) \<and>
   process_event (SND_SEQ_EVENT_CONTROL14 0 1 0x1234) 0xB0 (start_state 128 512 8) =
     (0xB0, write_event [1, 0x24, 33, 0x34] (start_state 128 512 8)) \<and>
   uint (ucast (signed_drop_bit 7 (0x1234 :: 32 word) AND 0x7f) :: uint8) = 0x24 \<and>
   pending (snd (process_event (SND_SEQ_EVENT_CONTROL14 0 1 0x1234) 0 (start_state 128 512 8)))
     = [0xB0, 1, 0x24, 33, 0x34] \<and>
   pending (snd (process_event (SND_SEQ_EVENT_CONTROL14 0 1 0x1234) 0xB0 (start_state 128 512 8)))
     = [1, 0x24, 33, 0x34]"
proof -
  let ?s = "start_state 128 512 8"
  have a: "(1 :: 32 word) < 32" by simp
  have ok: "indices_ok ?s" by (simp add: indices_ok_def start_state_def)
  have occ: "occupied ?s = 0" by (simp add: occupied_def start_state_def)
  have p0: "pending ?s = []" by (simp add: pending_def occ)
  have pre: "indices_ok ?s \<and> 5 + occupied ?s \<le> 65535" using ok occ by simp
  note t = control14_bytes [OF a]
  have 1: "process_event (SND_SEQ_EVENT_CONTROL14 0 1 0x1234) 0 ?s =
     (0xB0, write_event [0xB0, 1, 0x24, 33, 0x34] ?s)"
    by (rule t [THEN conjunct2, THEN conjunct2, THEN conjunct2, THEN conjunct2, THEN conjunct2,
                THEN conjunct2, THEN conjunct1])
  have 2: "process_event (SND_SEQ_EVENT_CONTROL14 0 1 0x1234) 0xB0 ?s =
     (0xB0, write_event [1, 0x24, 33, 0x34] ?s)"
    using t [of 0 "0x1234" "0xB0" ?s, THEN conjunct1] by simp
  have 3: "uint (ucast (signed_drop_bit 7 (0x1234 :: 32 word) AND 0x7f) :: uint8) = 0x24"
    using t [of 0 "0x1234" 0 ?s, THEN conjunct2, THEN conjunct2, THEN conjunct1]
    by simp
  have "pending (snd (process_event (SND_SEQ_EVENT_CONTROL14 0 1 0x1234) 0 ?s)) =
              pending ?s @ [0xB0, 1, 0x24, 33, 0x34]"
    by (rule t [THEN conjunct2, THEN conjunct2, THEN conjunct2, THEN conjunct2, THEN conjunct2,
                THEN conjunct2, THEN conjunct2, THEN conjunct2, THEN mp, OF pre])
  also have "\<dots> = [0xB0, 1, 0x24, 33, 0x34]" by (simp add: p0)
  finally have 4: "pending (snd (process_event (SND_SEQ_EVENT_CONTROL14 0 1 0x1234) 0 ?s))
      = [0xB0, 1, 0x24, 33, 0x34]" .
  have "pending (snd (process_event (SND_SEQ_EVENT_CONTROL14 0 1 0x1234) 0xB0 ?s)) =
              pending ?s @ (if (0xB0 :: uint8) \<noteq> 0xB0 OR 0 then [0xB0 OR 0] else []) @
                [ucast (1 :: 32 word), ucast (signed_drop_bit 7 (0x1234 :: 32 word) AND 0x7f),
                 ucast ((1 :: 32 word) + 32), ucast ((0x1234 :: 32 word) AND 0x7f)]"
    by (rule t [of 0 "0x1234" "0xB0" ?s, THEN conjunct2, THEN conjunct2, THEN conjunct2,
                THEN conjunct2, THEN conjunct2, THEN conjunct2, THEN conjunct2, THEN conjunct1,
                THEN mp, OF pre])
  also have "\<dots> = [1, 0x24, 33, 0x34]" by (simp add: p0)
  finally have 5: "pending (snd (process_event (SND_SEQ_EVENT_CONTROL14 0 1 0x1234) 0xB0 ?s))
      = [1, 0x24, 33, 0x34]" .
  from a pre 1 2 3 4 5 show ?thesis by blast
qed

text \<open>
  Claim C8. A note-off event is processed exactly as the note-on event with the same channel
  and note and velocity 0: the status byte is \<open>0x90 | c\<close>, the data bytes are the note and
  0, and the status byte is left out when it equals the running status. For a MIDI channel
  (\<open>c < 16\<close>) this status byte is different from \<open>0x80 | c\<close>. When the bytes fit they are
  appended to the channel.
\<close>

theorem note_off_as_note_on:
  "process_event (SND_SEQ_EVENT_NOTEOFF c n v) rs s = process_event (SND_SEQ_EVENT_NOTEON c n 0) rs s \<and>
   process_event (SND_SEQ_EVENT_NOTEOFF c n v) rs s =
     (0x90 OR c, write_event (if rs \<noteq> 0x90 OR c then [0x90 OR c, n, 0] else [n, 0]) s) \<and>
   (c < 16 \<longrightarrow> 0x90 OR c \<noteq> 0x80 OR c) \<and>
   (indices_ok s \<and> 3 + occupied s \<le> 65535 \<longrightarrow>
      pending (snd (process_event (SND_SEQ_EVENT_NOTEOFF c n v) rs s)) =
        pending s @ (if rs \<noteq> 0x90 OR c then [0x90 OR c, n, 0] else [n, 0]))"
proof (intro conjI impI)
  show "process_event (SND_SEQ_EVENT_NOTEOFF c n v) rs s = process_event (SND_SEQ_EVENT_NOTEON c n 0) rs s"
    by simp
  show pe: "process_event (SND_SEQ_EVENT_NOTEOFF c n v) rs s =
     (0x90 OR c, write_event (if rs \<noteq> 0x90 OR c then [0x90 OR c, n, 0] else [n, 0]) s)"
    by (simp add: write_running_def)
  {
    assume "c < 16"
    then show "0x90 OR c \<noteq> 0x80 OR c" by (rule note_on_status_differs)
  }
  {
    assume a: "indices_ok s \<and> 3 + occupied s \<le> 65535"
    then have "length (if rs \<noteq> 0x90 OR c then [0x90 OR c, n, 0] else [n, 0]) + occupied s \<le> 65535"
      by simp
    from write_event_pending [OF _ this] a
    show "pending (snd (process_event (SND_SEQ_EVENT_NOTEOFF c n v) rs s)) =
        pending s @ (if rs \<noteq> 0x90 OR c then [0x90 OR c, n, 0] else [n, 0])"
      unfolding pe by simp
  }
qed

theorem note_off_as_note_on_witness:
  "(3 :: uint8) < 16 \<and> (0x93 :: uint8) \<noteq> 0x83 \<and>
   indices_ok (start_state 128 512 8) \<and> 3 + occupied (start_state 128 512 8) \<le> 65535 \<and>
   pending (snd (process_event (SND_SEQ_EVENT_NOTEOFF 3 60 64) 0 (start_state 128 512 8)))
     = [0x93, 60, 0] \<and>
   pending (snd (process_event (SND_SEQ_EVENT_NOTEOFF 3 60 64) 0x93 (start_state 128 512 8)))
     = [60, 0]"
proof -
  let ?s = "start_state 128 512 8"
  have c: "(3 :: uint8) < 16" by simp
  have ok: "indices_ok ?s" by (simp add: indices_ok_def start_state_def)
  have occ: "occupied ?s = 0" by (simp add: occupied_def start_state_def)
  have p0: "pending ?s = []" by (simp add: pending_def occ)
  have pre: "indices_ok ?s \<and> 3 + occupied ?s \<le> 65535" using ok occ by simp
  have "(0x90 :: uint8) OR 3 \<noteq> 0x80 OR 3"
    by (rule note_off_as_note_on [THEN conjunct2, THEN conjunct2, THEN conjunct1, THEN mp, OF c])
  then have 1: "(0x93 :: uint8) \<noteq> 0x83" by simp
  have "pending (snd (process_event (SND_SEQ_EVENT_NOTEOFF 3 60 64) 0 ?s)) =
        pending ?s @ (if (0 :: uint8) \<noteq> 0x90 OR 3 then [0x90 OR 3, 60, 0] else [60, 0])"
    by (rule note_off_as_note_on [THEN conjunct2, THEN conjunct2, THEN conjunct2, THEN mp, OF pre])
  also have "\<dots> = [0x93, 60, 0]" by (simp add: p0)
  finally have 2: "pending (snd (process_event (SND_SEQ_EVENT_NOTEOFF 3 60 64) 0 ?s)) = [0x93, 60, 0]" .
  have "pending (snd (process_event (SND_SEQ_EVENT_NOTEOFF 3 60 64) 0x93 ?s)) =
        pending ?s @ (if (0x93 :: uint8) \<noteq> 0x90 OR 3 then [0x90 OR 3, 60, 0] else [60, 0])"
    by (rule note_off_as_note_on [THEN conjunct2, THEN conjunct2, THEN conjunct2, THEN mp, OF pre])
  also have "\<dots> = [60, 0]" by (simp add: p0)
  finally have 3: "pending (snd (process_event (SND_SEQ_EVENT_NOTEOFF 3 60 64) 0x93 ?s)) = [60, 0]" .
  from c 1 pre 2 3 show ?thesis by blast
qed

text \<open>
  Claim C10. Let an event with status byte \<open>st\<close>, different from the running status, arrive
  when its bytes do not fit into the channel. \<open>process_event\<close> returns the running status
  \<open>st\<close>, and the channel holds what it held before: the event is dropped, only the
  diagnostic is printed. If the next event has the same status byte and its data bytes do fit,
  only these data bytes are appended to the channel, although the status byte never entered it.
\<close>

theorem overflow_keeps_running_status:
  assumes e: "channel_message e = Some (st, d)"
      and new: "st \<noteq> rs"
      and ok: "indices_ok s"
      and over: "length (st # d) > 65535 - occupied s"
      and e': "channel_message e' = Some (st, d')"
      and fits: "length d' + occupied s \<le> 65535"
  shows "process_event e rs s = (st, s\<lparr>stderr := stderr s @ [''Event buffer overflow'']\<rparr>) \<and>
         pending (snd (process_event e rs s)) = pending s \<and>
         process_events [e, e'] rs s
           = (st, write_event d' (s\<lparr>stderr := stderr s @ [''Event buffer overflow'']\<rparr>)) \<and>
         pending (snd (process_events [e, e'] rs s)) = pending s @ d'"
proof -
  let ?s1 = "s\<lparr>stderr := stderr s @ [''Event buffer overflow'']\<rparr>"
  have "length (st # d) > free_space (event_read_index s) (event_write_index s)"
    using over by (simp add: free_space_occupied [OF ok])
  then have "write_event (st # d) s = ?s1" by (rule write_event_overflow)
  then have 1: "process_event e rs s = (st, ?s1)"
    using new by (simp add: process_event_channel_message [OF e] write_running_def)
  have 2: "process_event e' st ?s1 = (st, write_event d' ?s1)"
    by (simp add: process_event_channel_message [OF e'] write_running_def)
  have "pending (write_event d' ?s1) = pending ?s1 @ d'"
    using ok fits by (intro write_event_pending) simp_all
  with 1 2 show ?thesis by simp
qed

theorem overflow_keeps_running_status_witness:
  "channel_message (SND_SEQ_EVENT_NOTEON 0 60 100) = Some (0x90, [60, 100]) \<and>
   (0x90 :: uint8) \<noteq> 0 \<and>
   indices_ok ((start_state 128 512 8)\<lparr>event_write_index := 65533\<rparr>) \<and>
   length [0x90, 60, 100 :: uint8] > 65535 - occupied ((start_state 128 512 8)\<lparr>event_write_index := 65533\<rparr>) \<and>
   channel_message (SND_SEQ_EVENT_NOTEON 0 64 90) = Some (0x90, [64, 90]) \<and>
   length [64, 90 :: uint8] + occupied ((start_state 128 512 8)\<lparr>event_write_index := 65533\<rparr>) \<le> 65535 \<and>
   fst (process_events [SND_SEQ_EVENT_NOTEON 0 60 100, SND_SEQ_EVENT_NOTEON 0 64 90] 0
          ((start_state 128 512 8)\<lparr>event_write_index := 65533\<rparr>)) = 0x90 \<and>
   pending (snd (process_events [SND_SEQ_EVENT_NOTEON 0 60 100, SND_SEQ_EVENT_NOTEON 0 64 90] 0
          ((start_state 128 512 8)\<lparr>event_write_index := 65533\<rparr>)))
     = pending ((start_state 128 512 8)\<lparr>event_write_index := 65533\<rparr>) @ [64, 90]"
proof -
  let ?s = "(start_state 128 512 8)\<lparr>event_write_index := 65533\<rparr>"
  have e: "channel_message (SND_SEQ_EVENT_NOTEON 0 60 100) = Some (0x90, [60, 100])" by simp
  have new: "(0x90 :: uint8) \<noteq> 0" by simp
  have ok: "indices_ok ?s" by (simp add: indices_ok_def start_state_def)
  have occ: "occupied ?s = 65533" by (simp add: occupied_def start_state_def)
  have over: "length [0x90, 60, 100 :: uint8] > 65535 - occupied ?s" by (simp add: occ)
  have e': "channel_message (SND_SEQ_EVENT_NOTEON 0 64 90) = Some (0x90, [64, 90])" by simp
  have fits: "length [64, 90 :: uint8] + occupied ?s \<le> 65535" by (simp add: occ)
  note t = overflow_keeps_running_status [OF e new ok over e' fits]
  have "fst (process_events [SND_SEQ_EVENT_NOTEON 0 60 100, SND_SEQ_EVENT_NOTEON 0 64 90] 0 ?s) = 0x90"
    by (simp only: t [THEN conjunct2, THEN conjunct2, THEN conjunct1] fst_conv)
  moreover have "pending (snd (process_events [SND_SEQ_EVENT_NOTEON 0 60 100, SND_SEQ_EVENT_NOTEON 0 64 90] 0 ?s))
     = pending ?s @ [64, 90]"
    by (rule t [THEN conjunct2, THEN conjunct2, THEN conjunct2])
  ultimately show ?thesis using e new ok over e' fits by blast
qed

section \<open>Properties of the render loop\<close>

subsection \<open>Writing one subbuffer\<close>

lemma is_writei_not_engine: "is_writei c \<Longrightarrow> \<not> is_engine_call c"
  by (cases c) simp_all


lemma write_frames_0 [simp]: "write_frames replies p 0 s = Some (0, s)"
  by (subst write_frames.simps) simp

lemma write_frames_Nil [simp]: "r \<noteq> 0 \<Longrightarrow> write_frames [] p r s = None"
  by (subst write_frames.simps) simp

lemma write_frames_Cons [simp]:
  "r \<noteq> 0 \<Longrightarrow> write_frames (w # ws) p r s =
     (if w < 0 then Some (-1, s\<lparr>calls := calls s @ [snd_pcm_writei p r w]\<rparr>)
      else write_frames ws (p + nat (w * 4)) (nat ((int r - w) mod 2 ^ 64))
             (s\<lparr>calls := calls s @ [snd_pcm_writei p r w]\<rparr>))"
  by (subst write_frames.simps) (simp add: Let_def)

lemma write_frames_calls:
  "write_frames replies p r s = Some (res, s') \<Longrightarrow>
   \<exists>cs. s' = s\<lparr>calls := calls s @ cs\<rparr> \<and> list_all is_writei cs"
proof (induction replies p r s rule: write_frames.induct)
  case (1 replies buf_ptr remaining s)
  show ?case
  proof (cases "remaining = 0")
    case True
    with "1.prems" have "s' = s\<lparr>calls := calls s @ []\<rparr> \<and> list_all is_writei []" by simp
    then show ?thesis by blast
  next
    case False
    note r = this
    show ?thesis
    proof (cases replies)
      case Nil
      with r "1.prems" show ?thesis by simp
    next
      case (Cons written replies')
      let ?s1 = "s\<lparr>calls := calls s @ [snd_pcm_writei buf_ptr remaining written]\<rparr>"
      show ?thesis
      proof (cases "written < 0")
        case True
        with r Cons "1.prems" have "s' = s\<lparr>calls := calls s @ [snd_pcm_writei buf_ptr remaining written]\<rparr>
            \<and> list_all is_writei [snd_pcm_writei buf_ptr remaining written]"
          by (simp add: Let_def)
        then show ?thesis by blast
      next
        case False
        with r Cons "1.prems" have
          "write_frames replies' (buf_ptr + nat (written * 4))
             (nat ((int remaining - written) mod 2 ^ 64)) ?s1 = Some (res, s')"
          by (simp add: Let_def)
        from "1.IH" [OF r Cons refl False this]
        obtain cs where "s' = ?s1\<lparr>calls := calls ?s1 @ cs\<rparr>" "list_all is_writei cs" by blast
        then have "s' = s\<lparr>calls := calls s @ (snd_pcm_writei buf_ptr remaining written # cs)\<rparr>
            \<and> list_all is_writei (snd_pcm_writei buf_ptr remaining written # cs)"
          by simp
        then show ?thesis by blast
      qed
    qed
  qed
qed

lemma write_frames_accepts:
  "accepts r ws \<Longrightarrow> r < 2 ^ 64 \<Longrightarrow>
   \<exists>cs. write_frames ws p r s = Some (0, s\<lparr>calls := calls s @ cs\<rparr>) \<and>
        length cs = length ws \<and> list_all is_writei cs \<and> frames_written cs = int r \<and>
        take 1 cs = map (snd_pcm_writei p r) (take 1 ws)"
proof (induction ws arbitrary: p r s)
  case Nil
  then have r: "r = 0" by simp
  have "write_frames [] p r s = Some (0, s\<lparr>calls := calls s @ []\<rparr>) \<and>
        length ([] :: call list) = length ([] :: int list) \<and> list_all is_writei [] \<and>
        frames_written [] = int r \<and> take 1 [] = map (snd_pcm_writei p r) (take 1 [])"
    unfolding r by simp
  then show ?case by (rule exI)
next
  case (Cons w ws)
  let ?s1 = "s\<lparr>calls := calls s @ [snd_pcm_writei p r w]\<rparr>"
  from Cons.prems have r: "r \<noteq> 0" and w: "0 \<le> w" "w \<le> int r" and a: "accepts (r - nat w) ws"
    by simp_all
  have m: "nat ((int r - w) mod 2 ^ 64) = r - nat w"
  proof -
    have "(int r - w) mod 2 ^ 64 = int r - w"
      using w Cons.prems(2) by (intro mod_pos_pos_trivial) auto
    then show ?thesis using w by (simp add: nat_diff_distrib)
  qed
  have lt: "r - nat w < 2 ^ 64" using Cons.prems(2) by simp
  from Cons.IH [OF a lt, of "p + nat (w * 4)" ?s1]
  obtain cs where cs: "write_frames ws (p + nat (w * 4)) (r - nat w) ?s1
        = Some (0, ?s1\<lparr>calls := calls ?s1 @ cs\<rparr>)"
      "length cs = length ws" "list_all is_writei cs" "frames_written cs = int (r - nat w)"
    by blast
  have 5: "take 1 (snd_pcm_writei p r w # cs) = map (snd_pcm_writei p r) (take 1 (w # ws))"
    by simp
  have nw: "\<not> w < 0" using w by simp
  have "write_frames (w # ws) p r s
        = write_frames ws (p + nat (w * 4)) (nat ((int r - w) mod 2 ^ 64)) ?s1"
    by (simp only: write_frames_Cons [OF r] nw if_False)
  also have "\<dots> = write_frames ws (p + nat (w * 4)) (r - nat w) ?s1" by (simp only: m)
  also have "\<dots> = Some (0, ?s1\<lparr>calls := calls ?s1 @ cs\<rparr>)" by (rule cs(1))
  also have "?s1\<lparr>calls := calls ?s1 @ cs\<rparr> = s\<lparr>calls := calls s @ (snd_pcm_writei p r w # cs)\<rparr>"
    by simp
  finally have 1: "write_frames (w # ws) p r s
        = Some (0, s\<lparr>calls := calls s @ (snd_pcm_writei p r w # cs)\<rparr>)" .
  have 2: "frames_written (snd_pcm_writei p r w # cs) = int r"
    using w cs(4) by simp
  have 3: "length (snd_pcm_writei p r w # cs) = length (w # ws)" using cs(2) by simp
  have 4: "list_all is_writei (snd_pcm_writei p r w # cs)" using cs(3) by simp
  from 1 3 4 2 5 show ?case by blast
qed

lemma write_frames_fails:
  "fails r ws \<Longrightarrow> r < 2 ^ 64 \<Longrightarrow>
   \<exists>cs. write_frames ws p r s = Some (-1, s\<lparr>calls := calls s @ cs\<rparr>) \<and>
        list_all is_writei cs \<and> take 1 cs = [snd_pcm_writei p r (hd ws)]"
proof (induction ws arbitrary: p r s)
  case Nil
  then show ?case by simp
next
  case (Cons w ws)
  let ?s1 = "s\<lparr>calls := calls s @ [snd_pcm_writei p r w]\<rparr>"
  from Cons.prems have r: "r \<noteq> 0" by simp
  show ?case
  proof (cases "w < 0")
    case True
    with r have "write_frames (w # ws) p r s = Some (-1, s\<lparr>calls := calls s @ [snd_pcm_writei p r w]\<rparr>) \<and>
        list_all is_writei [snd_pcm_writei p r w] \<and>
        take 1 [snd_pcm_writei p r w] = [snd_pcm_writei p r (hd (w # ws))]"
      by simp
    then show ?thesis by (rule exI)
  next
    case False
    with Cons.prems have w: "0 \<le> w" "w \<le> int r" and f: "fails (r - nat w) ws" by auto
    have m: "nat ((int r - w) mod 2 ^ 64) = r - nat w"
    proof -
      have "(int r - w) mod 2 ^ 64 = int r - w"
        using w Cons.prems(2) by (intro mod_pos_pos_trivial) auto
      then show ?thesis using w by (simp add: nat_diff_distrib)
    qed
    have lt: "r - nat w < 2 ^ 64" using Cons.prems(2) by simp
    from Cons.IH [OF f lt, of "p + nat (w * 4)" ?s1]
    obtain cs where cs: "write_frames ws (p + nat (w * 4)) (r - nat w) ?s1
          = Some (-1, ?s1\<lparr>calls := calls ?s1 @ cs\<rparr>)" "list_all is_writei cs"
      by blast
    have "write_frames (w # ws) p r s
          = write_frames ws (p + nat (w * 4)) (nat ((int r - w) mod 2 ^ 64)) ?s1"
      by (simp only: write_frames_Cons [OF r] False if_False)
    also have "\<dots> = write_frames ws (p + nat (w * 4)) (r - nat w) ?s1" by (simp only: m)
    also have "\<dots> = Some (-1, ?s1\<lparr>calls := calls ?s1 @ cs\<rparr>)" by (rule cs(1))
    also have "?s1\<lparr>calls := calls ?s1 @ cs\<rparr> = s\<lparr>calls := calls s @ (snd_pcm_writei p r w # cs)\<rparr>"
      by simp
    finally have "write_frames (w # ws) p r s
          = Some (-1, s\<lparr>calls := calls s @ (snd_pcm_writei p r w # cs)\<rparr>) \<and>
        list_all is_writei (snd_pcm_writei p r w # cs) \<and>
        take 1 (snd_pcm_writei p r w # cs) = [snd_pcm_writei p r (hd (w # ws))]"
      using cs(2) by simp
    then show ?thesis by (rule exI)
  qed
qed

lemma output_subbuffer_calls:
  "output_subbuffer num replies s = Some (res, s') \<Longrightarrow>
   \<exists>cs. s' = s\<lparr>calls := calls s @ cs\<rparr> \<and> list_all is_writei cs"
  unfolding output_subbuffer_def by (rule write_frames_calls)

lemma output_subbuffer_full:
  assumes "0 < samples_per_call s" "samples_per_call s < 2 ^ 32"
  shows "output_subbuffer num [int (samples_per_call s)] s =
           Some (0, s\<lparr>calls := calls s @
             [snd_pcm_writei ((num * bytes_per_call s) mod 2 ^ 32) (samples_per_call s)
                (int (samples_per_call s))]\<rparr>)"
  using assms by (simp add: output_subbuffer_def)

lemma prefill_done [simp]: "\<not> i < num_subbuffers s \<Longrightarrow> prefill replies i s = Some s"
  by (subst prefill.simps) simp

lemma prefill_Nil [simp]: "i < num_subbuffers s \<Longrightarrow> prefill [] i s = None"
  by (subst prefill.simps) simp

lemma prefill_Cons [simp]:
  "i < num_subbuffers s \<Longrightarrow> prefill (r # rs) i s =
     (case output_subbuffer i r s of None \<Rightarrow> None | Some (res, s') \<Rightarrow> prefill rs (i + 1) s')"
  by (subst prefill.simps) simp

lemma prefill_calls:
  "prefill replies i s = Some s' \<Longrightarrow>
   \<exists>cs. s' = s\<lparr>calls := calls s @ cs\<rparr> \<and> list_all is_writei cs"
proof (induction replies arbitrary: i s)
  case Nil
  then have "\<not> i < num_subbuffers s" by (cases "i < num_subbuffers s") simp_all
  with Nil have "s' = s\<lparr>calls := calls s @ []\<rparr> \<and> list_all is_writei []" by simp
  then show ?case by (rule exI)
next
  case (Cons r rs)
  show ?case
  proof (cases "i < num_subbuffers s")
    case False
    with Cons.prems have "s' = s\<lparr>calls := calls s @ []\<rparr> \<and> list_all is_writei []" by simp
    then show ?thesis by (rule exI)
  next
    case True
    with Cons.prems obtain res s1 where
      o: "output_subbuffer i r s = Some (res, s1)" and p: "prefill rs (i + 1) s1 = Some s'"
      by (auto split: option.splits)
    from output_subbuffer_calls [OF o] obtain cs1 where
      cs1: "s1 = s\<lparr>calls := calls s @ cs1\<rparr>" "list_all is_writei cs1" by blast
    from Cons.IH [OF p] obtain cs2 where
      cs2: "s' = s1\<lparr>calls := calls s1 @ cs2\<rparr>" "list_all is_writei cs2" by blast
    have "s' = s\<lparr>calls := calls s @ (cs1 @ cs2)\<rparr> \<and> list_all is_writei (cs1 @ cs2)"
      using cs1 cs2 by simp
    then show ?thesis by (rule exI)
  qed
qed

lemma prefill_full:
  assumes "0 < samples_per_call s" "samples_per_call s < 2 ^ 32"
  shows "n = num_subbuffers s - i \<Longrightarrow>
         prefill (replicate n [int (samples_per_call s)]) i s =
           Some (s\<lparr>calls := calls s @
             map (\<lambda>k. snd_pcm_writei ((k * bytes_per_call s) mod 2 ^ 32) (samples_per_call s)
                        (int (samples_per_call s))) [i ..< num_subbuffers s]\<rparr>)"
  using assms
proof (induction n arbitrary: i s)
  case 0
  then show ?case by simp
next
  case (Suc n)
  let ?c = "snd_pcm_writei ((i * bytes_per_call s) mod 2 ^ 32) (samples_per_call s)
                (int (samples_per_call s))"
  let ?s1 = "s\<lparr>calls := calls s @ [?c]\<rparr>"
  from Suc.prems(1) have lt: "i < num_subbuffers s" by simp
  have n: "n = num_subbuffers ?s1 - (i + 1)" using Suc.prems(1) by simp
  have "prefill (replicate (Suc n) [int (samples_per_call s)]) i s
        = prefill (replicate n [int (samples_per_call ?s1)]) (i + 1) ?s1"
    using lt by (simp add: output_subbuffer_full [OF Suc.prems(2,3)])
  also have "\<dots> = Some (?s1\<lparr>calls := calls ?s1 @
             map (\<lambda>k. snd_pcm_writei ((k * bytes_per_call ?s1) mod 2 ^ 32) (samples_per_call ?s1)
                        (int (samples_per_call ?s1))) [i + 1 ..< num_subbuffers ?s1]\<rparr>)"
    using Suc.prems(2,3) by (intro Suc.IH [OF n]) simp_all
  also have "\<dots> = Some (s\<lparr>calls := calls s @
             map (\<lambda>k. snd_pcm_writei ((k * bytes_per_call s) mod 2 ^ 32) (samples_per_call s)
                        (int (samples_per_call s))) [i ..< num_subbuffers s]\<rparr>)"
    using lt by (simp add: upt_conv_Cons)
  finally show ?case .
qed

lemma output_subbuffer_slot_calls:
  assumes o: "output_subbuffer num replies s = Some (res, s')"
      and spc: "samples_per_call s < 2 ^ 64"
  shows "\<exists>cs. s' = s\<lparr>calls := calls s @ cs\<rparr> \<and> slot_calls s num replies cs"
proof -
  let ?p = "(num * bytes_per_call s) mod 2 ^ 32"
  let ?r = "samples_per_call s"
  from o have w: "write_frames replies ?p ?r s = Some (res, s')"
    by (simp add: output_subbuffer_def)
  from write_frames_calls [OF w] obtain cs where
    cs: "s' = s\<lparr>calls := calls s @ cs\<rparr>" "list_all is_writei cs" by blast
  have first: "take 1 cs = (if ?r = 0 then [] else [snd_pcm_writei ?p ?r (hd replies)])"
  proof (cases "?r = 0")
    case True
    with w have "s' = s" by simp
    with cs(1) have "calls s = calls s @ cs" by (metis driver.select_convs(12) driver.surjective driver.update_convs(12))
    then show ?thesis using True by simp
  next
    case False
    show ?thesis
    proof (cases replies)
      case Nil
      with w False show ?thesis by simp
    next
      case (Cons x xs)
      let ?s1 = "s\<lparr>calls := calls s @ [snd_pcm_writei ?p ?r x]\<rparr>"
      show ?thesis
      proof (cases "x < 0")
        case True
        with w False Cons have "s' = ?s1" by simp
        with cs(1) have "calls s @ cs = calls s @ [snd_pcm_writei ?p ?r x]"
          by (metis driver.select_convs(12) driver.surjective driver.update_convs(12))
        then show ?thesis using False Cons by simp
      next
        case nn: False
        with w False Cons have
          "write_frames xs (?p + nat (x * 4)) (nat ((int ?r - x) mod 2 ^ 64)) ?s1 = Some (res, s')"
          by simp
        from write_frames_calls [OF this] obtain cs' where
          "s' = ?s1\<lparr>calls := calls ?s1 @ cs'\<rparr>" by blast
        then have "calls s' = calls s @ snd_pcm_writei ?p ?r x # cs'" by simp
        moreover from cs(1) have "calls s' = calls s @ cs" by simp
        ultimately have "cs = snd_pcm_writei ?p ?r x # cs'" by simp
        then show ?thesis using False Cons by simp
      qed
    qed
  qed
  have acc: "accepts ?r replies \<longrightarrow> length cs = length replies \<and> frames_written cs = int ?r"
  proof
    assume a: "accepts ?r replies"
    from write_frames_accepts [OF a spc, of ?p s] obtain cs' where
      c': "write_frames replies ?p ?r s = Some (0, s\<lparr>calls := calls s @ cs'\<rparr>)"
          "length cs' = length replies" "frames_written cs' = int ?r" by blast
    from c'(1) w have "s' = s\<lparr>calls := calls s @ cs'\<rparr>" by simp
    then have "calls s' = calls s @ cs'" by simp
    moreover from cs(1) have "calls s' = calls s @ cs" by simp
    ultimately have "cs = cs'" by simp
    with c'(2,3) show "length cs = length replies \<and> frames_written cs = int ?r" by simp
  qed
  from cs first acc have "s' = s\<lparr>calls := calls s @ cs\<rparr> \<and> slot_calls s num replies cs"
    by (simp add: slot_calls_def)
  then show ?thesis by (rule exI)
qed

lemma slot_calls_calls [simp]: "slot_calls (s\<lparr>calls := x\<rparr>) num replies cs = slot_calls s num replies cs"
  by (simp add: slot_calls_def)

lemma prefill_slot_calls:
  "prefill replies i s = Some s' \<Longrightarrow> samples_per_call s < 2 ^ 64 \<Longrightarrow>
   \<exists>css. s' = s\<lparr>calls := calls s @ concat css\<rparr> \<and>
         length css = num_subbuffers s - i \<and>
         (\<forall>j < num_subbuffers s - i. slot_calls s (j + i) (replies ! j) (css ! j))"
proof (induction replies arbitrary: i s)
  case Nil
  then have "\<not> i < num_subbuffers s" by (cases "i < num_subbuffers s") simp_all
  with Nil have "s' = s\<lparr>calls := calls s @ concat []\<rparr> \<and>
      length ([] :: call list list) = num_subbuffers s - i \<and>
      (\<forall>j < num_subbuffers s - i. slot_calls s (j + i) ([] ! j) ([] ! j))" by simp
  then show ?case by (rule exI)
next
  case (Cons r rs)
  show ?case
  proof (cases "i < num_subbuffers s")
    case False
    with Cons.prems have "s' = s\<lparr>calls := calls s @ concat []\<rparr> \<and>
      length ([] :: call list list) = num_subbuffers s - i \<and>
      (\<forall>j < num_subbuffers s - i. slot_calls s (j + i) ((r # rs) ! j) ([] ! j))" by simp
    then show ?thesis by (rule exI)
  next
    case True
    with Cons.prems obtain res s1 where
      o: "output_subbuffer i r s = Some (res, s1)" and p: "prefill rs (i + 1) s1 = Some s'"
      by (auto split: option.splits)
    from output_subbuffer_slot_calls [OF o Cons.prems(2)] obtain cs where
      cs: "s1 = s\<lparr>calls := calls s @ cs\<rparr>" "slot_calls s i r cs" by blast
    have spc1: "samples_per_call s1 < 2 ^ 64" using cs(1) Cons.prems(2) by simp
    from Cons.IH [OF p spc1] obtain css where
      css: "s' = s1\<lparr>calls := calls s1 @ concat css\<rparr>"
           "length css = num_subbuffers s1 - (i + 1)"
           "\<forall>j < num_subbuffers s1 - (i + 1). slot_calls s1 (j + (i + 1)) (rs ! j) (css ! j)"
      by blast
    have 1: "s' = s\<lparr>calls := calls s @ concat (cs # css)\<rparr>" using cs(1) css(1) by simp
    have 2: "length (cs # css) = num_subbuffers s - i" using css(2) cs(1) True by simp
    have 3: "\<forall>j < num_subbuffers s - i. slot_calls s (j + i) ((r # rs) ! j) ((cs # css) ! j)"
    proof (intro allI impI)
      fix j assume j: "j < num_subbuffers s - i"
      show "slot_calls s (j + i) ((r # rs) ! j) ((cs # css) ! j)"
      proof (cases j)
        case 0
        then show ?thesis using cs(2) by simp
      next
        case (Suc k)
        with j have "k < num_subbuffers s1 - (i + 1)" using cs(1) by simp
        with css(3) have "slot_calls s1 (k + (i + 1)) (rs ! k) (css ! k)" by blast
        then show ?thesis using Suc cs(1) by simp
      qed
    qed
    from 1 2 3 show ?thesis by blast
  qed
qed

lemma prefill_returns:
  "num_subbuffers s - i \<le> length replies \<Longrightarrow>
   \<forall>r \<in> set replies. accepts (samples_per_call s) r \<or> fails (samples_per_call s) r \<Longrightarrow>
   samples_per_call s < 2 ^ 64 \<Longrightarrow>
   \<exists>s'. prefill replies i s = Some s'"
proof (induction replies arbitrary: i s)
  case Nil
  then have "\<not> i < num_subbuffers s" by simp
  then show ?case by simp
next
  case (Cons r rs)
  show ?case
  proof (cases "i < num_subbuffers s")
    case False
    then show ?thesis by simp
  next
    case True
    let ?p = "(i * bytes_per_call s) mod 2 ^ 32"
    from Cons.prems(2) have "accepts (samples_per_call s) r \<or> fails (samples_per_call s) r"
      by simp
    then have "\<exists>res cs. output_subbuffer i r s = Some (res, s\<lparr>calls := calls s @ cs\<rparr>)"
    proof
      assume "accepts (samples_per_call s) r"
      from write_frames_accepts [OF this Cons.prems(3), of ?p s]
      show ?thesis unfolding output_subbuffer_def by blast
    next
      assume "fails (samples_per_call s) r"
      from write_frames_fails [OF this Cons.prems(3), of ?p s]
      show ?thesis unfolding output_subbuffer_def by blast
    qed
    then obtain res cs where o: "output_subbuffer i r s = Some (res, s\<lparr>calls := calls s @ cs\<rparr>)"
      by blast
    let ?s1 = "s\<lparr>calls := calls s @ cs\<rparr>"
    have a: "num_subbuffers ?s1 - (i + 1) \<le> length rs" using Cons.prems(1) by simp
    have b: "\<forall>r \<in> set rs. accepts (samples_per_call ?s1) r \<or> fails (samples_per_call ?s1) r"
      using Cons.prems(2) by simp
    have c: "samples_per_call ?s1 < 2 ^ 64" using Cons.prems(3) by simp
    from Cons.IH [OF a b c] obtain s' where "prefill rs (i + 1) ?s1 = Some s'" by blast
    with True o have "prefill (r # rs) i s = Some s'" by simp
    then show ?thesis by (rule exI)
  qed
qed

subsection \<open>The start of \<open>main_loop\<close>\<close>

lemma filter_engine_writei: "list_all is_writei cs \<Longrightarrow> filter is_engine_call cs = []"
  by (induction cs) (auto dest: is_writei_not_engine)


text \<open>
  Claim C4, as the code has it. Before the \<open>while (1)\<close> loop, \<open>main_loop\<close> probes the
  clock, calls \<open>output_subbuffer\<close> for each of the subbuffers 2 to \<open>num_subbuffers - 1\<close> in
  order, ignoring its result, and then calls \<open>snd_pcm_pause(midi_pcm, 1)\<close>; the clock is read
  once more when the pause fails. Whenever this start returns, all calls between the clock
  probe and the pause are \<open>snd_pcm_writei\<close> calls: the engine is not called, nothing is
  rendered and the event channel is not read. \<open>is_paused\<close> is 1 exactly when the pause
  succeeded. With a device that takes each period in one write the start does return, and the
  calls are the probe, one write of \<open>samples_per_call\<close> frames at offset
  \<open>k * bytes_per_call\<close> for each \<open>k\<close> from 2 to \<open>num_subbuffers - 1\<close> in order, and the
  pause. For any answers of the device, the calls between the probe and the pause fall into
  one group for each slot from 2 to \<open>num_subbuffers - 1\<close>, in order: the first call of a group
  offers the whole period at the slot's offset, and when the device takes the period (in any
  number of partial writes) the group writes \<open>samples_per_call\<close> frames; a device error ends
  the group and the loop goes on with the next slot. The start returns whenever the device
  answers every slot by taking the period or by an error.
\<close>

theorem main_loop_start_prefill:
  "(main_loop_start replies pr t l s = Some (l', s') \<longrightarrow>
      (\<exists>cs. calls s' = calls s @ clock_gettime # cs @ snd_pcm_pause 1 pr #
                (if pr = 0 then [] else [clock_gettime]) \<and>
            list_all is_writei cs) \<and>
      filter is_engine_call (calls s') = filter is_engine_call (calls s) \<and>
      event_buffer s' = event_buffer s \<and>
      event_read_index s' = event_read_index s \<and>
      event_write_index s' = event_write_index s \<and>
      subbuf_counter s' = subbuf_counter s \<and>
      is_paused l' = (if pr = 0 then 1 else 0) \<and>
      midi_event_written s' = 0 \<and> midi_init_state s' = 1) \<and>
   (0 < samples_per_call s \<and> samples_per_call s < 2 ^ 32 \<longrightarrow>
      main_loop_start (replicate (num_subbuffers s - 2) [int (samples_per_call s)]) pr t l s =
        Some (if pr = 0 then l\<lparr>is_paused := 1\<rparr> else l\<lparr>is_paused := 0, last_written_time := t\<rparr>,
              s\<lparr>calls := calls s @ clock_gettime #
                   map (\<lambda>k. snd_pcm_writei ((k * bytes_per_call s) mod 2 ^ 32) (samples_per_call s)
                              (int (samples_per_call s))) [2 ..< num_subbuffers s] @
                   snd_pcm_pause 1 pr # (if pr = 0 then [] else [clock_gettime]),
                 stdout := stdout s @ (if pr = 0 then [''PCM playback paused''] else []),
                 midi_event_written := 0, midi_init_state := 1\<rparr>)) \<and>
   (main_loop_start replies pr t l s = Some (l', s') \<and> samples_per_call s < 2 ^ 32 \<longrightarrow>
      (\<exists>css. calls s' = calls s @ clock_gettime # concat css @ snd_pcm_pause 1 pr #
                 (if pr = 0 then [] else [clock_gettime]) \<and>
             length css = num_subbuffers s - 2 \<and>
             (\<forall>j < num_subbuffers s - 2. slot_calls s (j + 2) (replies ! j) (css ! j)))) \<and>
   (num_subbuffers s - 2 \<le> length replies \<and> samples_per_call s < 2 ^ 32 \<and>
    (\<forall>r \<in> set replies. accepts (samples_per_call s) r \<or> fails (samples_per_call s) r) \<longrightarrow>
      (\<exists>l1 s1. main_loop_start replies pr t l s = Some (l1, s1)))"
proof (intro conjI impI)
  let ?s0 = "s\<lparr>calls := calls s @ [clock_gettime]\<rparr>"
  {
    assume a: "main_loop_start replies pr t l s = Some (l', s') \<and> samples_per_call s < 2 ^ 32"
    then obtain s1 where p: "prefill replies 2 ?s0 = Some s1"
      by (auto simp: main_loop_start_def split: option.splits)
    have spc: "samples_per_call ?s0 < 2 ^ 64" using a by simp
    from prefill_slot_calls [OF p spc] obtain css where
      css: "s1 = ?s0\<lparr>calls := calls ?s0 @ concat css\<rparr>"
           "length css = num_subbuffers ?s0 - 2"
           "\<forall>j < num_subbuffers ?s0 - 2. slot_calls ?s0 (j + 2) (replies ! j) (css ! j)"
      by blast
    have "calls s' = calls s @ clock_gettime # concat css @ snd_pcm_pause 1 pr #
                 (if pr = 0 then [] else [clock_gettime])"
      using a p css(1) by (auto simp: main_loop_start_def Let_def split: if_splits)
    with css(2,3) have "calls s' = calls s @ clock_gettime # concat css @ snd_pcm_pause 1 pr #
                 (if pr = 0 then [] else [clock_gettime]) \<and>
             length css = num_subbuffers s - 2 \<and>
             (\<forall>j < num_subbuffers s - 2. slot_calls s (j + 2) (replies ! j) (css ! j))"
      by simp
    then show "\<exists>css. calls s' = calls s @ clock_gettime # concat css @ snd_pcm_pause 1 pr #
                 (if pr = 0 then [] else [clock_gettime]) \<and>
             length css = num_subbuffers s - 2 \<and>
             (\<forall>j < num_subbuffers s - 2. slot_calls s (j + 2) (replies ! j) (css ! j))"
      by (rule exI)
  }
  {
    assume c: "num_subbuffers s - 2 \<le> length replies \<and> samples_per_call s < 2 ^ 32 \<and>
      (\<forall>r \<in> set replies. accepts (samples_per_call s) r \<or> fails (samples_per_call s) r)"
    have c1: "num_subbuffers ?s0 - 2 \<le> length replies" using c by simp
    have c2: "\<forall>r \<in> set replies. accepts (samples_per_call ?s0) r \<or> fails (samples_per_call ?s0) r"
      using c by simp
    have c3: "samples_per_call ?s0 < 2 ^ 64" using c by simp
    from prefill_returns [OF c1 c2 c3] obtain s1 where "prefill replies 2 ?s0 = Some s1" by blast
    then show "\<exists>l1 s1. main_loop_start replies pr t l s = Some (l1, s1)"
      by (simp add: main_loop_start_def Let_def split: prod.split)
  }
  {
    assume a: "main_loop_start replies pr t l s = Some (l', s')"
    then obtain s1 where p: "prefill replies 2 ?s0 = Some s1"
      by (auto simp: main_loop_start_def split: option.splits)
    from prefill_calls [OF p] obtain cs where
      cs: "s1 = ?s0\<lparr>calls := calls ?s0 @ cs\<rparr>" "list_all is_writei cs" by blast
    have r: "l' = (if pr = 0 then l\<lparr>is_paused := 1\<rparr> else l\<lparr>is_paused := 0, last_written_time := t\<rparr>)"
            "s' = s\<lparr>calls := calls s @ clock_gettime # cs @ snd_pcm_pause 1 pr #
                      (if pr = 0 then [] else [clock_gettime]),
                    stdout := stdout s @ (if pr = 0 then [''PCM playback paused''] else []),
                    midi_event_written := 0, midi_init_state := 1\<rparr>"
      using a p cs(1) by (auto simp: main_loop_start_def Let_def split: if_splits)
    have "calls s' = calls s @ clock_gettime # cs @ snd_pcm_pause 1 pr #
                (if pr = 0 then [] else [clock_gettime]) \<and> list_all is_writei cs"
      using r(2) cs(2) by simp
    then show "\<exists>cs. calls s' = calls s @ clock_gettime # cs @ snd_pcm_pause 1 pr #
                (if pr = 0 then [] else [clock_gettime]) \<and> list_all is_writei cs"
      by (rule exI)
    show "filter is_engine_call (calls s') = filter is_engine_call (calls s)"
      using r(2) filter_engine_writei [OF cs(2)] by simp
    show "event_buffer s' = event_buffer s" using r(2) by simp
    show "event_read_index s' = event_read_index s" using r(2) by simp
    show "event_write_index s' = event_write_index s" using r(2) by simp
    show "subbuf_counter s' = subbuf_counter s" using r(2) by simp
    show "is_paused l' = (if pr = 0 then 1 else 0)" using r(1) by simp
    show "midi_event_written s' = 0" using r(2) by simp
    show "midi_init_state s' = 1" using r(2) by simp
  }
  {
    assume b: "0 < samples_per_call s \<and> samples_per_call s < 2 ^ 32"
    have n: "num_subbuffers s - 2 = num_subbuffers ?s0 - 2" by simp
    have "prefill (replicate (num_subbuffers s - 2) [int (samples_per_call ?s0)]) 2 ?s0 =
           Some (?s0\<lparr>calls := calls ?s0 @
             map (\<lambda>k. snd_pcm_writei ((k * bytes_per_call ?s0) mod 2 ^ 32) (samples_per_call ?s0)
                        (int (samples_per_call ?s0))) [2 ..< num_subbuffers ?s0]\<rparr>)"
      using b by (intro prefill_full [OF _ _ n]) simp_all
    then show "main_loop_start (replicate (num_subbuffers s - 2) [int (samples_per_call s)]) pr t l s =
        Some (if pr = 0 then l\<lparr>is_paused := 1\<rparr> else l\<lparr>is_paused := 0, last_written_time := t\<rparr>,
              s\<lparr>calls := calls s @ clock_gettime #
                   map (\<lambda>k. snd_pcm_writei ((k * bytes_per_call s) mod 2 ^ 32) (samples_per_call s)
                              (int (samples_per_call s))) [2 ..< num_subbuffers s] @
                   snd_pcm_pause 1 pr # (if pr = 0 then [] else [clock_gettime]),
                 stdout := stdout s @ (if pr = 0 then [''PCM playback paused''] else []),
                 midi_event_written := 0, midi_init_state := 1\<rparr>)"
      by (simp add: main_loop_start_def Let_def)
  }
qed

text \<open>
  Claim C4 as stated says that the subbuffers are rendered before they are written. With four
  subbuffers of two frames the calls of the start are the clock probe, two writes and the
  pause: no call of the engine is among them.
\<close>

theorem main_loop_start_renders_nothing_counterexample:
  "map_option (calls \<circ> snd)
     (main_loop_start [[2], [2]] 0 \<lparr>tv_sec = 0, tv_nsec = 0\<rparr>
        \<lparr>is_paused = 0, last_written_time = \<lparr>tv_sec = 0, tv_nsec = 0\<rparr>\<rparr> (start_state 2 8 4))
     = Some [clock_gettime, snd_pcm_writei 16 2 2, snd_pcm_writei 24 2 2, snd_pcm_pause 1 0] \<and>
   filter is_engine_call
     [clock_gettime, snd_pcm_writei 16 2 2, snd_pcm_writei 24 2 2, snd_pcm_pause 1 0] = []"
  by (simp add: main_loop_start_def output_subbuffer_def start_state_def Let_def)

theorem main_loop_start_prefill_witness:
  "0 < samples_per_call (start_state 2 8 4) \<and> samples_per_call (start_state 2 8 4) < 2 ^ 32 \<and>
   main_loop_start [[2], [2]] 1 \<lparr>tv_sec = 5, tv_nsec = 0\<rparr>
       \<lparr>is_paused = 0, last_written_time = \<lparr>tv_sec = 0, tv_nsec = 0\<rparr>\<rparr> (start_state 2 8 4)
     = Some (\<lparr>is_paused = 0, last_written_time = \<lparr>tv_sec = 5, tv_nsec = 0\<rparr>\<rparr>,
             (start_state 2 8 4)\<lparr>calls := [clock_gettime, snd_pcm_writei 16 2 2,
                 snd_pcm_writei 24 2 2, snd_pcm_pause 1 1, clock_gettime],
               midi_event_written := 0, midi_init_state := 1\<rparr>) \<and>
   filter is_engine_call [clock_gettime, snd_pcm_writei 16 2 2,
                 snd_pcm_writei 24 2 2, snd_pcm_pause 1 1, clock_gettime] = [] \<and>
   num_subbuffers (start_state 2 8 4) - 2 \<le> length [[1, 1], [- 11 :: int]] \<and>
   accepts (samples_per_call (start_state 2 8 4)) [1, 1] \<and>
   main_loop_start [[1, 1], [- 11]] 0 \<lparr>tv_sec = 5, tv_nsec = 0\<rparr>
       \<lparr>is_paused = 0, last_written_time = \<lparr>tv_sec = 0, tv_nsec = 0\<rparr>\<rparr> (start_state 2 8 4)
     = Some (\<lparr>is_paused = 1, last_written_time = \<lparr>tv_sec = 0, tv_nsec = 0\<rparr>\<rparr>,
             (start_state 2 8 4)\<lparr>calls := [clock_gettime, snd_pcm_writei 16 2 1,
                 snd_pcm_writei 20 1 1, snd_pcm_writei 24 2 (- 11), snd_pcm_pause 1 0],
               stdout := [''PCM playback paused''],
               midi_event_written := 0, midi_init_state := 1\<rparr>) \<and>
   (\<exists>css. [clock_gettime, snd_pcm_writei 16 2 1, snd_pcm_writei 20 1 1,
            snd_pcm_writei 24 2 (- 11), snd_pcm_pause 1 0]
             = clock_gettime # concat css @ [snd_pcm_pause 1 0] \<and>
          length css = 2 \<and>
          take 1 (css ! 0) = [snd_pcm_writei 16 2 1] \<and> frames_written (css ! 0) = 2 \<and>
          take 1 (css ! 1) = [snd_pcm_writei 24 2 (- 11)])"
proof -
  let ?s = "start_state 2 8 4"
  let ?t = "\<lparr>tv_sec = 5, tv_nsec = 0\<rparr>"
  let ?l = "\<lparr>is_paused = 0, last_written_time = \<lparr>tv_sec = 0, tv_nsec = 0\<rparr>\<rparr>"
  let ?s' = "?s\<lparr>calls := [clock_gettime, snd_pcm_writei 16 2 2,
                 snd_pcm_writei 24 2 2, snd_pcm_pause 1 1, clock_gettime],
               midi_event_written := 0, midi_init_state := 1\<rparr>"
  let ?l2 = "\<lparr>is_paused = 1, last_written_time = \<lparr>tv_sec = 0, tv_nsec = 0\<rparr>\<rparr>"
  let ?s2 = "?s\<lparr>calls := [clock_gettime, snd_pcm_writei 16 2 1,
                 snd_pcm_writei 20 1 1, snd_pcm_writei 24 2 (- 11), snd_pcm_pause 1 0],
               stdout := [''PCM playback paused''],
               midi_event_written := 0, midi_init_state := 1\<rparr>"
  let ?r2 = "[[1, 1], [- 11 :: int]]"
  have h: "0 < samples_per_call ?s \<and> samples_per_call ?s < 2 ^ 32"
    by (simp add: start_state_def)
  have lhs: "replicate (num_subbuffers ?s - 2) [int (samples_per_call ?s)] = [[2], [2]]"
    by (simp add: start_state_def numeral_2_eq_2)
  have "main_loop_start (replicate (num_subbuffers ?s - 2) [int (samples_per_call ?s)]) 1 ?t ?l ?s
      = Some (if (1::int) = 0 then ?l\<lparr>is_paused := 1\<rparr> else ?l\<lparr>is_paused := 0, last_written_time := ?t\<rparr>,
              ?s\<lparr>calls := calls ?s @ clock_gettime #
                   map (\<lambda>k. snd_pcm_writei ((k * bytes_per_call ?s) mod 2 ^ 32) (samples_per_call ?s)
                              (int (samples_per_call ?s))) [2 ..< num_subbuffers ?s] @
                   snd_pcm_pause 1 1 # (if (1::int) = 0 then [] else [clock_gettime]),
                 stdout := stdout ?s @ (if (1::int) = 0 then [''PCM playback paused''] else []),
                 midi_event_written := 0, midi_init_state := 1\<rparr>)"
    by (rule main_loop_start_prefill [THEN conjunct2, THEN conjunct1, THEN mp, OF h])
  also have "\<dots> = Some (\<lparr>is_paused = 0, last_written_time = ?t\<rparr>, ?s')"
    by (simp add: start_state_def upt_rec)
  finally have e: "main_loop_start [[2], [2]] 1 ?t ?l ?s
      = Some (\<lparr>is_paused = 0, last_written_time = ?t\<rparr>, ?s')"
    unfolding lhs .
  have "filter is_engine_call (calls ?s') = filter is_engine_call (calls ?s)"
    using main_loop_start_prefill [THEN conjunct1, THEN mp, OF e] by blast
  then have f: "filter is_engine_call [clock_gettime, snd_pcm_writei 16 2 2,
                 snd_pcm_writei 24 2 2, snd_pcm_pause 1 1, clock_gettime] = []"
    by (simp add: start_state_def)
  have n2: "num_subbuffers ?s - 2 \<le> length ?r2" by (simp add: start_state_def)
  have ac: "accepts (samples_per_call ?s) [1, 1]" by (simp add: start_state_def)
  have fl: "fails (samples_per_call ?s) [- 11]" by (simp add: start_state_def)
  have spc: "samples_per_call ?s < 2 ^ 32" by (simp add: start_state_def)
  have af: "\<forall>r \<in> set ?r2. accepts (samples_per_call ?s) r \<or> fails (samples_per_call ?s) r"
    using ac fl by simp
  have "\<exists>l1 s1. main_loop_start ?r2 0 ?t ?l ?s = Some (l1, s1)"
    by (rule main_loop_start_prefill [THEN conjunct2, THEN conjunct2, THEN conjunct2, THEN mp,
          OF conjI [OF n2 conjI [OF spc af]]])
  then obtain l1 s1 where r: "main_loop_start ?r2 0 ?t ?l ?s = Some (l1, s1)" by blast
  have e2: "main_loop_start ?r2 0 ?t ?l ?s = Some (?l2, ?s2)"
    by (simp add: main_loop_start_def output_subbuffer_def start_state_def Let_def)
  from main_loop_start_prefill [THEN conjunct2, THEN conjunct2, THEN conjunct1, THEN mp,
          OF conjI [OF e2 spc]]
  obtain css where css:
    "calls ?s2 = calls ?s @ clock_gettime # concat css @ snd_pcm_pause 1 0 #
        (if (0 :: int) = 0 then [] else [clock_gettime])"
    "length css = num_subbuffers ?s - 2"
    "\<forall>j < num_subbuffers ?s - 2. slot_calls ?s (j + 2) (?r2 ! j) (css ! j)"
    by blast
  have n4: "(0 :: nat) < num_subbuffers ?s - 2" "(1 :: nat) < num_subbuffers ?s - 2"
    by (simp_all add: start_state_def)
  have j0: "slot_calls ?s (0 + 2) (?r2 ! 0) (css ! 0)"
    using css(3) n4(1) by blast
  have j1: "slot_calls ?s (1 + 2) (?r2 ! 1) (css ! 1)"
    using css(3) n4(2) by blast
  have g0: "take 1 (css ! 0) = [snd_pcm_writei 16 2 1] \<and> frames_written (css ! 0) = 2"
    using j0 by (simp add: slot_calls_def start_state_def)
  have g1: "take 1 (css ! 1) = [snd_pcm_writei 24 2 (- 11)]"
    using j1 by (simp add: slot_calls_def start_state_def)
  have x: "\<exists>css. [clock_gettime, snd_pcm_writei 16 2 1, snd_pcm_writei 20 1 1,
            snd_pcm_writei 24 2 (- 11), snd_pcm_pause 1 0]
             = clock_gettime # concat css @ [snd_pcm_pause 1 0] \<and>
          length css = 2 \<and>
          take 1 (css ! 0) = [snd_pcm_writei 16 2 1] \<and> frames_written (css ! 0) = 2 \<and>
          take 1 (css ! 1) = [snd_pcm_writei 24 2 (- 11)]"
    using css(1,2) g0 g1 by (intro exI [of _ css]) (simp add: start_state_def)
  from h e f n2 ac e2 x show ?thesis by blast
qed

subsection \<open>The inner loop\<close>

lemma read_events_record:
  assumes ok: "indices_ok s"
  shows "\<exists>spans. read_events s =
            s\<lparr>event_read_index := event_write_index s,
              calls := calls s @ map EAS_WriteMIDIStream spans\<rparr> \<and>
           length spans \<le> 2 \<and> concat spans = pending s"
proof -
  consider "event_read_index s = event_write_index s"
    | "event_read_index s < event_write_index s"
    | "event_write_index s < event_read_index s" by linarith
  then show ?thesis
  proof cases
    case 1
    then have "pending s = []" by (simp add: pending_def occupied_def)
    with 1 have "read_events s =
            s\<lparr>event_read_index := event_write_index s,
              calls := calls s @ map EAS_WriteMIDIStream []\<rparr> \<and>
        length ([] :: uint8 list list) \<le> 2 \<and> concat [] = pending s"
      by (simp add: read_events_def)
    then show ?thesis by (rule exI)
  next
    case 2
    let ?a = "span (event_buffer s) (event_read_index s) (event_write_index s - event_read_index s)"
    have "read_events s =
            s\<lparr>event_read_index := event_write_index s,
              calls := calls s @ map EAS_WriteMIDIStream [?a]\<rparr> \<and>
        length [?a] \<le> 2 \<and> concat [?a] = pending s"
      using 2 read_events_contiguous [OF ok 2] by (simp add: read_events_def Let_def)
    then show ?thesis by (rule exI)
  next
    case 3
    let ?a = "span (event_buffer s) (event_read_index s) (65536 - event_read_index s)"
    let ?b = "span (event_buffer s) 0 (event_write_index s)"
    have "read_events s =
            s\<lparr>event_read_index := event_write_index s,
              calls := calls s @ map EAS_WriteMIDIStream [?a, ?b]\<rparr> \<and>
        length [?a, ?b] \<le> 2 \<and> concat [?a, ?b] = pending s"
      using 3 read_events_wrapped [OF ok 3] by (simp add: read_events_def Let_def)
    then show ?thesis by (rule exI)
  qed
qed

lemma render_subbuffer_record:
  assumes ok: "indices_ok s"
  shows "\<exists>spans. render_subbuffer num reply s =
           (if fst reply \<noteq> 0 then - 1 else if snd reply \<noteq> int (samples_per_call s) then - 2 else 0,
            s\<lparr>event_read_index := event_write_index s,
              calls := calls s @ map EAS_WriteMIDIStream spans @
                [EAS_Render ((num * bytes_per_call s) mod 2 ^ 32) (samples_per_call s)]\<rparr>) \<and>
           length spans \<le> 2 \<and> concat spans = pending s"
proof -
  from read_events_record [OF ok] obtain spans where
    sp: "read_events s = s\<lparr>event_read_index := event_write_index s,
              calls := calls s @ map EAS_WriteMIDIStream spans\<rparr>"
        "length spans \<le> 2" "concat spans = pending s" by blast
  have "render_subbuffer num reply s =
           (if fst reply \<noteq> 0 then - 1 else if snd reply \<noteq> int (samples_per_call s) then - 2 else 0,
            s\<lparr>event_read_index := event_write_index s,
              calls := calls s @ map EAS_WriteMIDIStream spans @
                [EAS_Render ((num * bytes_per_call s) mod 2 ^ 32) (samples_per_call s)]\<rparr>)"
    unfolding render_subbuffer_def sp(1) by (simp add: Let_def)
  with sp(2,3) show ?thesis by blast
qed

lemma output_loop_exit:
  "available_frames < int ((3 * samples_per_call s) mod 2 ^ 32) \<Longrightarrow>
   output_loop answers available_frames s = Some (available_frames, s)"
  by (subst output_loop.simps) simp


lemma output_loop_Cons:
  "int ((3 * samples_per_call s) mod 2 ^ 32) \<le> available_frames \<Longrightarrow>
   output_loop ((render_reply, writei_replies) # answers') available_frames s =
     (case render_subbuffer (subbuf_counter s) render_reply s of
        (rendered, s1) \<Rightarrow>
          (let s2 = (if rendered < 0
                     then s1\<lparr>stderr := stderr s1 @ [''Error rendering audio data'']\<rparr>
                     else s1)
           in case output_subbuffer (subbuf_counter s2) writei_replies s2 of
                None \<Rightarrow> None
              | Some (res, s3) \<Rightarrow>
                  if res < 0
                  then Some (0, s3\<lparr>stderr := stderr s3 @ [''Error writing audio data'']\<rparr>)
                  else output_loop answers'
                         (available_frames - int (samples_per_call s3))
                         (s3\<lparr>subbuf_counter :=
                               (if (subbuf_counter s3 + 1) mod 2 ^ 32 = num_subbuffers s3
                                then 0 else (subbuf_counter s3 + 1) mod 2 ^ 32)\<rparr>)))"
  by (subst output_loop.simps) simp

text \<open>
  Claim C5, as the code has it. The inner loop runs while \<open>available_frames\<close> is at least
  three periods (\<open>>=\<close>, so also when it is exactly three periods). Below that it returns at
  once and changes nothing. One pass, when the device takes the whole period (in any number
  of partial writes): the pending bytes of the channel go to the engine in at most two spans,
  \<open>EAS_Render\<close> is asked for \<open>samples_per_call\<close> frames at the slot \<open>subbuf_counter\<close>,
  ``Error rendering audio data'' is printed when the engine fails or produces another frame
  count, and in either case the slot is written with \<open>snd_pcm_writei\<close>, the first call at the
  slot's offset with the whole period, one call for each answer, \<open>samples_per_call\<close> frames
  in total; then \<open>subbuf_counter\<close> advances modulo \<open>num_subbuffers\<close> and the loop goes on
  with \<open>available_frames\<close> reduced by one period. One pass, when the device answers with an
  error before the period is complete: ``Error writing audio data'' is printed and the loop
  ends with \<open>available_frames = 0\<close>; \<open>subbuf_counter\<close> keeps its value.
\<close>

theorem output_loop_iteration:
  assumes ok: "indices_ok s"
      and sz: "3 * samples_per_call s < 2 ^ 32"
      and cnt: "subbuf_counter s < num_subbuffers s"
      and n: "num_subbuffers s < 2 ^ 32"
  shows
   "(available_frames < 3 * int (samples_per_call s) \<longrightarrow>
       output_loop answers available_frames s = Some (available_frames, s)) \<and>
    (3 * int (samples_per_call s) \<le> available_frames \<and> accepts (samples_per_call s) ws \<longrightarrow>
       (\<exists>spans cs.
          output_loop ((rr, ws) # rest) available_frames s =
            output_loop rest (available_frames - int (samples_per_call s))
              (s\<lparr>event_read_index := event_write_index s,
                 calls := calls s @ map EAS_WriteMIDIStream spans @
                   EAS_Render ((subbuf_counter s * bytes_per_call s) mod 2 ^ 32) (samples_per_call s) # cs,
                 stderr := stderr s @
                   (if fst rr \<noteq> 0 \<or> snd rr \<noteq> int (samples_per_call s)
                    then [''Error rendering audio data''] else []),
                 subbuf_counter := (subbuf_counter s + 1) mod num_subbuffers s\<rparr>) \<and>
          length spans \<le> 2 \<and> concat spans = pending s \<and>
          list_all is_writei cs \<and> length cs = length ws \<and>
          frames_written cs = int (samples_per_call s) \<and>
          take 1 cs = map (snd_pcm_writei ((subbuf_counter s * bytes_per_call s) mod 2 ^ 32)
                             (samples_per_call s)) (take 1 ws))) \<and>
    (3 * int (samples_per_call s) \<le> available_frames \<and> fails (samples_per_call s) ws \<longrightarrow>
       (\<exists>spans cs.
          output_loop ((rr, ws) # rest) available_frames s =
            Some (0,
              s\<lparr>event_read_index := event_write_index s,
                 calls := calls s @ map EAS_WriteMIDIStream spans @
                   EAS_Render ((subbuf_counter s * bytes_per_call s) mod 2 ^ 32) (samples_per_call s) # cs,
                 stderr := stderr s @
                   (if fst rr \<noteq> 0 \<or> snd rr \<noteq> int (samples_per_call s)
                    then [''Error rendering audio data''] else []) @
                   [''Error writing audio data'']\<rparr>) \<and>
          length spans \<le> 2 \<and> concat spans = pending s \<and>
          list_all is_writei cs \<and>
          take 1 cs = [snd_pcm_writei ((subbuf_counter s * bytes_per_call s) mod 2 ^ 32)
                         (samples_per_call s) (hd ws)]))"
proof (intro conjI impI)
  let ?spc = "samples_per_call s"
  let ?c = "subbuf_counter s"
  let ?off = "(?c * bytes_per_call s) mod 2 ^ 32"
  let ?err = "if fst rr \<noteq> 0 \<or> snd rr \<noteq> int ?spc then [''Error rendering audio data''] else []"
  have thr: "int ((3 * ?spc) mod 2 ^ 32) = 3 * int ?spc" using sz by simp
  have spc64: "?spc < 2 ^ 64" using sz by simp
  have m32: "Suc ?c mod 2 ^ 32 = Suc ?c" using cnt n by simp
  have modN: "Suc ?c mod num_subbuffers s = (if Suc ?c = num_subbuffers s then 0 else Suc ?c)"
    using cnt by simp
  from render_subbuffer_record [OF ok, of ?c rr] obtain spans where
    rs: "render_subbuffer ?c rr s =
           (if fst rr \<noteq> 0 then - 1 else if snd rr \<noteq> int ?spc then - 2 else 0,
            s\<lparr>event_read_index := event_write_index s,
              calls := calls s @ map EAS_WriteMIDIStream spans @ [EAS_Render ?off ?spc]\<rparr>)"
    and sp: "length spans \<le> 2" "concat spans = pending s" by blast
  define s2 where "s2 = s\<lparr>event_read_index := event_write_index s,
              calls := calls s @ map EAS_WriteMIDIStream spans @ [EAS_Render ?off ?spc],
              stderr := stderr s @ ?err\<rparr>"
  have s2f: "subbuf_counter s2 = ?c" "samples_per_call s2 = ?spc" "bytes_per_call s2 = bytes_per_call s"
    "num_subbuffers s2 = num_subbuffers s"
    by (simp_all add: s2_def)
  have step: "\<And>avail. 3 * int ?spc \<le> avail \<Longrightarrow>
      output_loop ((rr, ws) # rest) avail s =
        (case write_frames ws ?off ?spc s2 of
           None \<Rightarrow> None
         | Some (res, s3) \<Rightarrow>
             if res < 0 then Some (0, s3\<lparr>stderr := stderr s3 @ [''Error writing audio data'']\<rparr>)
             else output_loop rest (avail - int (samples_per_call s3))
                    (s3\<lparr>subbuf_counter :=
                          (if (subbuf_counter s3 + 1) mod 2 ^ 32 = num_subbuffers s3
                           then 0 else (subbuf_counter s3 + 1) mod 2 ^ 32)\<rparr>))"
  proof -
    fix avail :: int
    assume "3 * int ?spc \<le> avail"
    then have "int ((3 * ?spc) mod 2 ^ 32) \<le> avail" by (simp only: thr)
    from output_loop_Cons [OF this, of rr ws rest]
    show "output_loop ((rr, ws) # rest) avail s =
        (case write_frames ws ?off ?spc s2 of
           None \<Rightarrow> None
         | Some (res, s3) \<Rightarrow>
             if res < 0 then Some (0, s3\<lparr>stderr := stderr s3 @ [''Error writing audio data'']\<rparr>)
             else output_loop rest (avail - int (samples_per_call s3))
                    (s3\<lparr>subbuf_counter :=
                          (if (subbuf_counter s3 + 1) mod 2 ^ 32 = num_subbuffers s3
                           then 0 else (subbuf_counter s3 + 1) mod 2 ^ 32)\<rparr>))"
      unfolding rs by (simp add: s2_def output_subbuffer_def Let_def)
  qed
  {
    assume "available_frames < 3 * int ?spc"
    then have "available_frames < int ((3 * ?spc) mod 2 ^ 32)" by (simp only: thr)
    then show "output_loop answers available_frames s = Some (available_frames, s)"
      by (rule output_loop_exit)
  }
  {
    assume a: "3 * int ?spc \<le> available_frames \<and> accepts ?spc ws"
    from write_frames_accepts [OF a [THEN conjunct2] spc64, of ?off s2] obtain cs where
      cs: "write_frames ws ?off ?spc s2 = Some (0, s2\<lparr>calls := calls s2 @ cs\<rparr>)"
          "length cs = length ws" "list_all is_writei cs" "frames_written cs = int ?spc"
          "take 1 cs = map (snd_pcm_writei ?off ?spc) (take 1 ws)"
      by blast
    have "output_loop ((rr, ws) # rest) available_frames s =
            output_loop rest (available_frames - int ?spc)
              (s2\<lparr>calls := calls s2 @ cs, subbuf_counter := (?c + 1) mod num_subbuffers s\<rparr>)"
      unfolding step [OF a [THEN conjunct1]] cs(1)
      using m32 modN by (simp add: s2f)
    also have "s2\<lparr>calls := calls s2 @ cs, subbuf_counter := (?c + 1) mod num_subbuffers s\<rparr>
        = s\<lparr>event_read_index := event_write_index s,
                 calls := calls s @ map EAS_WriteMIDIStream spans @ EAS_Render ?off ?spc # cs,
                 stderr := stderr s @ ?err,
                 subbuf_counter := (?c + 1) mod num_subbuffers s\<rparr>"
      by (simp add: s2_def)
    finally have "output_loop ((rr, ws) # rest) available_frames s =
            output_loop rest (available_frames - int ?spc)
              (s\<lparr>event_read_index := event_write_index s,
                 calls := calls s @ map EAS_WriteMIDIStream spans @ EAS_Render ?off ?spc # cs,
                 stderr := stderr s @ ?err,
                 subbuf_counter := (?c + 1) mod num_subbuffers s\<rparr>)" .
    with sp cs(2-5) show "\<exists>spans cs.
          output_loop ((rr, ws) # rest) available_frames s =
            output_loop rest (available_frames - int ?spc)
              (s\<lparr>event_read_index := event_write_index s,
                 calls := calls s @ map EAS_WriteMIDIStream spans @ EAS_Render ?off ?spc # cs,
                 stderr := stderr s @ ?err,
                 subbuf_counter := (?c + 1) mod num_subbuffers s\<rparr>) \<and>
          length spans \<le> 2 \<and> concat spans = pending s \<and>
          list_all is_writei cs \<and> length cs = length ws \<and>
          frames_written cs = int ?spc \<and>
          take 1 cs = map (snd_pcm_writei ?off ?spc) (take 1 ws)"
      by blast
  }
  {
    assume a: "3 * int ?spc \<le> available_frames \<and> fails ?spc ws"
    from write_frames_fails [OF a [THEN conjunct2] spc64, of ?off s2] obtain cs where
      cs: "write_frames ws ?off ?spc s2 = Some (- 1, s2\<lparr>calls := calls s2 @ cs\<rparr>)"
          "list_all is_writei cs" "take 1 cs = [snd_pcm_writei ?off ?spc (hd ws)]"
      by blast
    have "output_loop ((rr, ws) # rest) available_frames s =
            Some (0, s2\<lparr>calls := calls s2 @ cs,
                        stderr := stderr s2 @ [''Error writing audio data'']\<rparr>)"
      unfolding step [OF a [THEN conjunct1]] cs(1) by simp
    also have "s2\<lparr>calls := calls s2 @ cs, stderr := stderr s2 @ [''Error writing audio data'']\<rparr>
        = s\<lparr>event_read_index := event_write_index s,
                 calls := calls s @ map EAS_WriteMIDIStream spans @ EAS_Render ?off ?spc # cs,
                 stderr := stderr s @ ?err @ [''Error writing audio data'']\<rparr>"
      by (simp add: s2_def)
    finally have "output_loop ((rr, ws) # rest) available_frames s =
            Some (0, s\<lparr>event_read_index := event_write_index s,
                 calls := calls s @ map EAS_WriteMIDIStream spans @ EAS_Render ?off ?spc # cs,
                 stderr := stderr s @ ?err @ [''Error writing audio data'']\<rparr>)" .
    with sp cs(2,3) show "\<exists>spans cs.
          output_loop ((rr, ws) # rest) available_frames s =
            Some (0,
              s\<lparr>event_read_index := event_write_index s,
                 calls := calls s @ map EAS_WriteMIDIStream spans @ EAS_Render ?off ?spc # cs,
                 stderr := stderr s @ ?err @ [''Error writing audio data'']\<rparr>) \<and>
          length spans \<le> 2 \<and> concat spans = pending s \<and>
          list_all is_writei cs \<and>
          take 1 cs = [snd_pcm_writei ?off ?spc (hd ws)]"
      by blast
  }
qed

text \<open>
  Claim C5 as stated lets the loop run only while the available frames exceed three periods.
  With periods of two frames and exactly six frames available, which does not exceed three
  periods, the loop makes one pass: it renders and writes slot 0, advances the counter to 1
  and leaves four frames.
\<close>

theorem output_loop_threshold_counterexample:
  "output_loop [((0, 2), [2])] 6 (start_state 2 8 4) =
     Some (4, (start_state 2 8 4)\<lparr>calls := [EAS_Render 0 2, snd_pcm_writei 0 2 2],
                                   subbuf_counter := 1\<rparr>) \<and>
   \<not> (6 :: int) > 3 * int (samples_per_call (start_state 2 8 4))"
  by (simp add: output_loop.simps render_subbuffer_def read_events_def output_subbuffer_def
        start_state_def Let_def)

theorem output_loop_iteration_witness:
  "indices_ok (start_state 2 8 4) \<and>
   3 * samples_per_call (start_state 2 8 4) < 2 ^ 32 \<and>
   subbuf_counter (start_state 2 8 4) < num_subbuffers (start_state 2 8 4) \<and>
   num_subbuffers (start_state 2 8 4) < 2 ^ 32 \<and>
   3 * int (samples_per_call (start_state 2 8 4)) \<le> 6 \<and>
   accepts (samples_per_call (start_state 2 8 4)) [1, 1] \<and>
   (\<exists>spans cs.
      output_loop [((0, 2), [1, 1])] 6 (start_state 2 8 4) =
        output_loop [] 4
          ((start_state 2 8 4)\<lparr>calls := map EAS_WriteMIDIStream spans @ EAS_Render 0 2 # cs,
                                subbuf_counter := 1\<rparr>) \<and>
      concat spans = [] \<and> length cs = 2 \<and> frames_written cs = 2) \<and>
   output_loop [((0, 2), [1, 1])] 6 (start_state 2 8 4) =
     Some (4, (start_state 2 8 4)\<lparr>calls := [EAS_Render 0 2, snd_pcm_writei 0 2 1, snd_pcm_writei 4 1 1],
                                   subbuf_counter := 1\<rparr>)"
proof -
  let ?s = "start_state 2 8 4"
  have ok: "indices_ok ?s" by (simp add: indices_ok_def start_state_def)
  have sz: "3 * samples_per_call ?s < 2 ^ 32" by (simp add: start_state_def)
  have cnt: "subbuf_counter ?s < num_subbuffers ?s" by (simp add: start_state_def)
  have n: "num_subbuffers ?s < 2 ^ 32" by (simp add: start_state_def)
  have av: "3 * int (samples_per_call ?s) \<le> 6" by (simp add: start_state_def)
  have ac: "accepts (samples_per_call ?s) [1, 1]" by (simp add: start_state_def)
  have p0: "pending ?s = []" by (simp add: pending_def occupied_def start_state_def)
  from output_loop_iteration [OF ok sz cnt n, of 6 "[]" "[1, 1]" "(0, 2)" "[]",
      THEN conjunct2, THEN conjunct1, THEN mp, OF conjI [OF av ac]]
  obtain spans cs where
    e: "output_loop [((0, 2), [1, 1])] 6 ?s =
            output_loop [] (6 - int (samples_per_call ?s))
              (?s\<lparr>event_read_index := event_write_index ?s,
                 calls := calls ?s @ map EAS_WriteMIDIStream spans @
                   EAS_Render ((subbuf_counter ?s * bytes_per_call ?s) mod 2 ^ 32) (samples_per_call ?s) # cs,
                 stderr := stderr ?s @
                   (if fst (0 :: int, 2 :: int) \<noteq> 0 \<or> snd (0 :: int, 2 :: int) \<noteq> int (samples_per_call ?s)
                    then [''Error rendering audio data''] else []),
                 subbuf_counter := (subbuf_counter ?s + 1) mod num_subbuffers ?s\<rparr>)"
    and f: "concat spans = pending ?s" "length cs = length [1 :: int, 1]"
           "frames_written cs = int (samples_per_call ?s)"
    by blast
  have "(?s\<lparr>event_read_index := event_write_index ?s,
                 calls := calls ?s @ map EAS_WriteMIDIStream spans @
                   EAS_Render ((subbuf_counter ?s * bytes_per_call ?s) mod 2 ^ 32) (samples_per_call ?s) # cs,
                 stderr := stderr ?s @
                   (if fst (0 :: int, 2 :: int) \<noteq> 0 \<or> snd (0 :: int, 2 :: int) \<noteq> int (samples_per_call ?s)
                    then [''Error rendering audio data''] else []),
                 subbuf_counter := (subbuf_counter ?s + 1) mod num_subbuffers ?s\<rparr>)
        = ?s\<lparr>calls := map EAS_WriteMIDIStream spans @ EAS_Render 0 2 # cs, subbuf_counter := 1\<rparr>"
    by (simp add: start_state_def)
  with e have e': "output_loop [((0, 2), [1, 1])] 6 ?s =
        output_loop [] 4 (?s\<lparr>calls := map EAS_WriteMIDIStream spans @ EAS_Render 0 2 # cs,
                                subbuf_counter := 1\<rparr>)"
    by (simp add: start_state_def)
  have x: "\<exists>spans cs.
      output_loop [((0, 2), [1, 1])] 6 ?s =
        output_loop [] 4 (?s\<lparr>calls := map EAS_WriteMIDIStream spans @ EAS_Render 0 2 # cs,
                                subbuf_counter := 1\<rparr>) \<and>
      concat spans = [] \<and> length cs = 2 \<and> frames_written cs = 2"
    using e' f p0 by (intro exI [of _ spans] exI [of _ cs]) (simp add: start_state_def)
  have c: "output_loop [((0, 2), [1, 1])] 6 ?s =
     Some (4, ?s\<lparr>calls := [EAS_Render 0 2, snd_pcm_writei 0 2 1, snd_pcm_writei 4 1 1],
                   subbuf_counter := 1\<rparr>)"
    by (simp add: output_loop.simps render_subbuffer_def read_events_def output_subbuffer_def
        start_state_def Let_def)
  from ok sz cnt n av ac x c show ?thesis by blast
qed

subsection \<open>Pausing when idle\<close>

lemma filter_pause_midi: "filter is_pause_request (map EAS_WriteMIDIStream spans) = []"
  by (induction spans) simp_all














end
